theory Spec2Isabelle
  imports Main
begin

unbundle bit_operations_syntax

section \<open>JavaScript numbers and the 32-bit operators\<close>

text \<open>
  The writer of \<^verbatim>\<open>src/writer.js\<close> computes with JavaScript Numbers that hold
  integers. They are modelled as \<^typ>\<open>int\<close>; the coercions that the bitwise operators
  apply to their operands (ECMAScript \<^verbatim>\<open>ToInt32\<close> and \<^verbatim>\<open>ToUint32\<close>) are written out.
  The shift count of every shift operator is taken modulo 32, as the language does.

  The development covers the class \<^verbatim>\<open>Writer\<close> with its integer, string, fork and finish
  operations. Left out are \<^verbatim>\<open>float\<close> and \<^verbatim>\<open>double\<close> (floating point), \<^verbatim>\<open>bytes\<close> and the
  subclass \<^verbatim>\<open>BufferWriter\<close>, which works on node buffers.
\<close>

definition ToUint32 :: "int \<Rightarrow> int" where
  "ToUint32 x = x mod 2 ^ 32"

definition ToInt32 :: "int \<Rightarrow> int" where
  "ToInt32 x = (let u = x mod 2 ^ 32 in if 2 ^ 31 \<le> u then u - 2 ^ 32 else u)"

text \<open>\<^verbatim>\<open>a << n\<close>\<close>
definition js_shl :: "int \<Rightarrow> nat \<Rightarrow> int" where
  "js_shl a n = ToInt32 (ToInt32 a * 2 ^ (n mod 32))"

text \<open>\<^verbatim>\<open>a >> n\<close> (arithmetic)\<close>
definition js_sar :: "int \<Rightarrow> nat \<Rightarrow> int" where
  "js_sar a n = ToInt32 a div 2 ^ (n mod 32)"

text \<open>\<^verbatim>\<open>a >>> n\<close> (logical)\<close>
definition js_shr :: "int \<Rightarrow> nat \<Rightarrow> int" where
  "js_shr a n = ToUint32 a div 2 ^ (n mod 32)"

text \<open>\<^verbatim>\<open>a & b\<close>, \<^verbatim>\<open>a | b\<close>, \<^verbatim>\<open>a ^ b\<close>\<close>
definition js_and :: "int \<Rightarrow> int \<Rightarrow> int" where
  "js_and a b = ToInt32 a AND ToInt32 b"

definition js_or :: "int \<Rightarrow> int \<Rightarrow> int" where
  "js_or a b = ToInt32 a OR ToInt32 b"

definition js_xor :: "int \<Rightarrow> int \<Rightarrow> int" where
  "js_xor a b = ToInt32 a XOR ToInt32 b"

section \<open>The output buffer\<close>

text \<open>
  \<^verbatim>\<open>ArrayImpl\<close> is \<^verbatim>\<open>Uint8Array\<close> wherever that exists. A new typed array is filled
  with zeros, an element assignment stores the value modulo 256, and an assignment at
  an index beyond the end is ignored: this is what \<open>xs[i := v]\<close> does as well.
\<close>

type_synonym buffer = "int list"

definition new_ArrayImpl :: "nat \<Rightarrow> buffer" where
  "new_ArrayImpl n = replicate n 0"

text \<open>\<^verbatim>\<open>buf[pos] = v\<close>\<close>
definition store :: "buffer \<Rightarrow> nat \<Rightarrow> int \<Rightarrow> buffer" where
  "store buf pos v = buf[pos := v mod 256]"

section \<open>LongBits\<close>

record LongBits =
  lo :: int
  hi :: int

text \<open>
  Modelled from the spec: \<^verbatim>\<open>util.LongBits\<close> lives in \<^verbatim>\<open>util/runtime\<close>, which is not
  part of the sources at hand. The spec describes a LongBits as the pair of the 32-bit
  unsigned halves of a 64-bit value, created from a number by two's complement into 64
  bits (a non-negative number is split by division and remainder by \<open>2^32\<close>).
\<close>
definition LongBits_fromNumber :: "int \<Rightarrow> LongBits" where
  "LongBits_fromNumber v = \<lparr> lo = v mod 2 ^ 32, hi = (v div 2 ^ 32) mod 2 ^ 32 \<rparr>"

text \<open>
  Modelled from the spec: \<^verbatim>\<open>LongBits.from\<close> (in \<^verbatim>\<open>util/runtime\<close>) on a number. The
  other input forms (a value of the long library, a string) are not modelled.
\<close>
definition LongBits_from :: "int \<Rightarrow> LongBits" where
  "LongBits_from v = LongBits_fromNumber v"

text \<open>
  Modelled from the spec: \<^verbatim>\<open>zzEncode\<close> (in \<^verbatim>\<open>util/runtime\<close>), the zig-zag transform
  \<open>n \<mapsto> (n << 1) XOR (n >> 63)\<close> of the glossary on the 64-bit pair, \<open>n\<close> read as a
  signed 64-bit value.
\<close>
definition zzEncode :: "LongBits \<Rightarrow> LongBits" where
  "zzEncode b =
     (let u = hi b * 2 ^ 32 + lo b;
          n = (if 2 ^ 63 \<le> u then u - 2 ^ 64 else u);
          z = ((n * 2) XOR (n div 2 ^ 63)) mod 2 ^ 64
      in \<lparr> lo = z mod 2 ^ 32, hi = z div 2 ^ 32 \<rparr>)"

text \<open>
  Modelled from the spec: \<^verbatim>\<open>LongBits.length()\<close> (in \<^verbatim>\<open>util/runtime\<close>) is
  \<open>min(10, ceil(bits_needed / 7))\<close>, where \<open>bits_needed\<close> is one more than the position
  of the highest set bit of the pair, and 1 for the value 0.
\<close>
function bits_needed :: "int \<Rightarrow> nat" where
  "bits_needed n = (if n \<le> 0 then 0 else Suc (bits_needed (n div 2)))"
  by pat_completeness auto
termination
  by (relation "measure nat") auto

definition LongBits_length :: "LongBits \<Rightarrow> nat" where
  "LongBits_length b =
     (let u = hi b * 2 ^ 32 + lo b
      in if u = 0 then 1 else min 10 ((bits_needed u + 6) div 7))"

section \<open>Emit functions\<close>

text \<open>The value slot of an operation holds a number, a LongBits or a string
  (a sequence of UTF-16 code units).\<close>

type_synonym js_string = "int list"

datatype js_val = VNum int | VLong LongBits | VStr js_string

text \<open>\<^verbatim>\<open>function writeByte(buf, pos, val)\<close>\<close>
definition writeByte :: "buffer \<Rightarrow> nat \<Rightarrow> int \<Rightarrow> buffer" where
  "writeByte buf pos val = store buf pos (js_and val 255)"

text \<open>
  \<^verbatim>\<open>function writeVarint32(buf, pos, val)\<close>. The \<^verbatim>\<open>while\<close> loop returns the buffer,
  the position and the value it ends with; the last assignment does not advance
  \<open>pos\<close>.
\<close>
function writeVarint32_loop :: "buffer \<Rightarrow> nat \<Rightarrow> int \<Rightarrow> buffer \<times> nat \<times> int" where
  "writeVarint32_loop buf pos val =
     (if val > 127
      then writeVarint32_loop (store buf pos (js_or (js_and val 127) 128)) (pos + 1) (js_shr val 7)
      else (buf, pos, val))"
  by pat_completeness auto
termination
proof (relation "measure (\<lambda>(buf, pos, val). nat val)")
  show "wf (measure (\<lambda>(buf, pos, val). nat val))" by simp
next
  fix buf :: buffer and pos :: nat and val :: int
  assume v: "127 < val"
  have "val mod 2 ^ 32 \<le> val" using v by (simp add: zmod_le_nonneg_dividend)
  then have "(val mod 2 ^ 32) div 128 \<le> val div 128" by (rule zdiv_mono1) simp
  moreover have "val div 128 < val" using v by simp
  ultimately have "js_shr val 7 < val" by (simp add: js_shr_def ToUint32_def)
  then show "((store buf pos (js_or (js_and val 127) 128), pos + 1, js_shr val 7), (buf, pos, val))
      \<in> measure (\<lambda>(buf, pos, val). nat val)" using v by simp
qed

definition writeVarint32 :: "buffer \<Rightarrow> nat \<Rightarrow> int \<Rightarrow> buffer" where
  "writeVarint32 buf pos val =
     (case writeVarint32_loop buf pos val of (buf', pos', val') \<Rightarrow> store buf' pos' val')"

text \<open>
  \<^verbatim>\<open>function writeVarint64(buf, pos, val)\<close>. The function updates \<^verbatim>\<open>val.lo\<close> and
  \<^verbatim>\<open>val.hi\<close> in place; the loops carry them as loop variables. The first loop runs
  while \<^verbatim>\<open>val.hi\<close> is truthy, that is, not zero.
\<close>
function writeVarint64_loop1 :: "buffer \<Rightarrow> nat \<Rightarrow> LongBits \<Rightarrow> buffer \<times> nat \<times> LongBits" where
  "writeVarint64_loop1 buf pos val =
     (if hi val \<noteq> 0
      then writeVarint64_loop1 (store buf pos (js_or (js_and (lo val) 127) 128)) (pos + 1)
             \<lparr> lo = ToUint32 (js_or (js_shr (lo val) 7) (js_shl (hi val) 25)),
               hi = js_shr (hi val) 7 \<rparr>
      else (buf, pos, val))"
  by pat_completeness auto
termination
proof (relation "measure (\<lambda>(buf, pos, val). if hi val = 0 then 0 else Suc (nat (hi val mod 2 ^ 32)))")
  show "wf (measure (\<lambda>(buf, pos, val). if hi val = 0 then 0 else Suc (nat (hi val mod 2 ^ 32))))"
    by simp
next
  fix buf :: buffer and pos :: nat and val :: LongBits
  assume h: "hi val \<noteq> 0"
  define u where "u = hi val mod 2 ^ 32"
  have u0: "0 \<le> u" and u1: "u < 2 ^ 32" by (simp_all add: u_def)
  have s: "js_shr (hi val) 7 = u div 128" by (simp add: js_shr_def ToUint32_def u_def)
  have m: "(if js_shr (hi val) 7 = 0 then 0 else Suc (nat (js_shr (hi val) 7 mod 2 ^ 32)))
      < Suc (nat (hi val mod 2 ^ 32))"
  proof (cases "u div 128 = 0")
    case True
    then show ?thesis by (simp add: s)
  next
    case False
    then have "0 < u" using u0 by (cases "u = 0") simp_all
    then have "u div 128 < u" by simp
    moreover have "0 \<le> u div 128" using u0 by simp
    moreover have "u div 128 < 2 ^ 32" using u0 u1 by simp
    ultimately have "nat ((u div 128) mod 2 ^ 32) < nat u" by simp
    then show ?thesis using False unfolding s u_def by simp
  qed
  show "((store buf pos (js_or (js_and (lo val) 127) 128), pos + 1,
       \<lparr> lo = ToUint32 (js_or (js_shr (lo val) 7) (js_shl (hi val) 25)), hi = js_shr (hi val) 7 \<rparr>),
      (buf, pos, val))
      \<in> measure (\<lambda>(buf, pos, val). if hi val = 0 then 0 else Suc (nat (hi val mod 2 ^ 32)))"
    using h m by (simp split: if_splits)
qed

text \<open>The second loop starts when \<^verbatim>\<open>val.hi\<close> is zero, and leaves it so.\<close>
function writeVarint64_loop2 :: "buffer \<Rightarrow> nat \<Rightarrow> int \<Rightarrow> buffer \<times> nat \<times> int" where
  "writeVarint64_loop2 buf pos vlo =
     (if vlo > 127
      then writeVarint64_loop2 (store buf pos (js_or (js_and vlo 127) 128)) (pos + 1)
             (ToUint32 (js_or (js_shr vlo 7) (js_shl 0 25)))
      else (buf, pos, vlo))"
  by pat_completeness auto
termination
proof (relation "measure (\<lambda>(buf, pos, vlo). nat vlo)")
  show "wf (measure (\<lambda>(buf, pos, vlo). nat vlo))" by simp
next
  fix buf :: buffer and pos :: nat and vlo :: int
  assume v: "127 < vlo"
  define x where "x = (vlo mod 2 ^ 32) div 128"
  have x0: "0 \<le> x" by (simp add: x_def)
  have "vlo mod 2 ^ 32 < 2 ^ 32" by simp
  then have x1: "x < 2 ^ 25" unfolding x_def by simp
  have "vlo mod 2 ^ 32 \<le> vlo" using v by (simp add: zmod_le_nonneg_dividend)
  then have "x \<le> vlo div 128" unfolding x_def by (rule zdiv_mono1) simp
  moreover have "vlo div 128 < vlo" using v by simp
  ultimately have x2: "x < vlo" by simp
  have "ToInt32 x = x" using x0 x1 by (simp add: ToInt32_def Let_def)
  then have "ToUint32 (js_or (js_shr vlo 7) (js_shl 0 25)) = x"
    using x0 x1 by (simp add: js_or_def js_shr_def js_shl_def ToUint32_def ToInt32_def x_def)
  then show "((store buf pos (js_or (js_and vlo 127) 128), pos + 1,
       ToUint32 (js_or (js_shr vlo 7) (js_shl 0 25))), (buf, pos, vlo))
      \<in> measure (\<lambda>(buf, pos, vlo). nat vlo)"
    using v x2 by simp
qed

text \<open>The whole function, with the position after its last \<^verbatim>\<open>buf[pos++] = val.lo\<close>.\<close>
definition writeVarint64_run :: "buffer \<Rightarrow> nat \<Rightarrow> LongBits \<Rightarrow> buffer \<times> nat" where
  "writeVarint64_run buf pos val =
     (case writeVarint64_loop1 buf pos val of (buf1, pos1, val1) \<Rightarrow>
        (case writeVarint64_loop2 buf1 pos1 (lo val1) of (buf2, pos2, lo2) \<Rightarrow>
           (store buf2 pos2 lo2, pos2 + 1)))"

definition writeVarint64 :: "buffer \<Rightarrow> nat \<Rightarrow> LongBits \<Rightarrow> buffer" where
  "writeVarint64 buf pos val = fst (writeVarint64_run buf pos val)"

text \<open>\<^verbatim>\<open>function writeFixed32(buf, pos, val)\<close>\<close>
definition writeFixed32 :: "buffer \<Rightarrow> nat \<Rightarrow> int \<Rightarrow> buffer" where
  "writeFixed32 buf pos val =
     (let b0 = store buf pos (js_and val 255);
          b1 = store b0 (pos + 1) (js_and (js_shr val 8) 255);
          b2 = store b1 (pos + 2) (js_and (js_shr val 16) 255)
      in store b2 (pos + 3) (js_shr val 24))"

text \<open>
  \<^verbatim>\<open>val.charCodeAt(i)\<close> is the code unit at \<open>i\<close>, or NaN (\<open>None\<close>) beyond the end. A bitwise
  operator coerces NaN to 0.
\<close>
definition charCodeAt :: "js_string \<Rightarrow> nat \<Rightarrow> int option" where
  "charCodeAt val i = (if i < length val then Some (val ! i) else None)"

definition nan_to_zero :: "int option \<Rightarrow> int" where
  "nan_to_zero x = (case x of None \<Rightarrow> 0 | Some c \<Rightarrow> c)"

text \<open>
  \<^verbatim>\<open>function writeString(buf, pos, val)\<close>. The loop variable \<open>i\<close> is below
  \<^verbatim>\<open>val.length\<close> in the body, so \<^verbatim>\<open>c1\<close> is the code unit \<open>val ! i\<close>; \<^verbatim>\<open>c2\<close> may be NaN.
  The loop returns the buffer and the position it ends with.
\<close>
function writeString_loop :: "buffer \<Rightarrow> nat \<Rightarrow> js_string \<Rightarrow> nat \<Rightarrow> buffer \<times> nat" where
  "writeString_loop buf pos val i =
     (if i < length val then
        (let c1 = val ! i; c2 = nan_to_zero (charCodeAt val (i + 1)) in
         if c1 < 128 then
           writeString_loop (store buf pos c1) (pos + 1) val (i + 1)
         else if c1 < 2048 then
           writeString_loop
             (store (store buf pos (js_or (js_sar c1 6) 192))
                (pos + 1) (js_or (js_and c1 63) 128))
             (pos + 2) val (i + 1)
         else if js_and c1 0xFC00 = 0xD800 \<and> js_and c2 0xFC00 = 0xDC00 then
           (let c = 0x10000 + js_shl (js_and c1 0x03FF) 10 + js_and c2 0x03FF in
            writeString_loop
              (store (store (store (store buf pos (js_or (js_sar c 18) 240))
                 (pos + 1) (js_or (js_and (js_sar c 12) 63) 128))
                 (pos + 2) (js_or (js_and (js_sar c 6) 63) 128))
                 (pos + 3) (js_or (js_and c 63) 128))
              (pos + 4) val (i + 2))
         else
           writeString_loop
             (store (store (store buf pos (js_or (js_sar c1 12) 224))
                (pos + 1) (js_or (js_and (js_sar c1 6) 63) 128))
                (pos + 2) (js_or (js_and c1 63) 128))
             (pos + 3) val (i + 1))
      else (buf, pos))"
  by pat_completeness auto
termination
  by (relation "measure (\<lambda>(buf, pos, val, i). length val - i)") auto

definition writeString :: "buffer \<Rightarrow> nat \<Rightarrow> js_string \<Rightarrow> buffer" where
  "writeString buf pos val = fst (writeString_loop buf pos val 0)"

text \<open>
  \<^verbatim>\<open>function byteLength(val)\<close>, with \<^verbatim>\<open>strlen = val.length >>> 0\<close>. The loop variable is
  below \<open>strlen\<close>, which is at most \<^verbatim>\<open>val.length\<close>, so \<^verbatim>\<open>c1\<close> is again a code unit.
\<close>
function byteLength_loop :: "js_string \<Rightarrow> nat \<Rightarrow> nat \<Rightarrow> nat \<Rightarrow> nat" where
  "byteLength_loop val strlen i n =
     (if i < strlen then
        (let c1 = val ! i in
         if c1 < 128 then byteLength_loop val strlen (i + 1) (n + 1)
         else if c1 < 2048 then byteLength_loop val strlen (i + 1) (n + 2)
         else if js_and c1 0xFC00 = 0xD800
                 \<and> js_and (nan_to_zero (charCodeAt val (i + 1))) 0xFC00 = 0xDC00
           then byteLength_loop val strlen (i + 2) (n + 4)
         else byteLength_loop val strlen (i + 1) (n + 3))
      else n)"
  by pat_completeness auto
termination
  by (relation "measure (\<lambda>(val, strlen, i, n). strlen - i)") auto

definition byteLength :: "js_string \<Rightarrow> nat" where
  "byteLength val = byteLength_loop val (nat (js_shr (int (length val)) 0)) 0 0"

section \<open>Operations, fork states and the writer\<close>

text \<open>
  The queue is a linked list of \<^verbatim>\<open>Op\<close> objects that the writer updates in place, and a
  fork keeps references into it. The objects therefore live in a store: a reference is an
  address (a natural number), \<^verbatim>\<open>null\<close> is \<open>None\<close>, and \<^verbatim>\<open>new Op(...)\<close> takes the next
  unused address. The field \<open>op_fn\<close> names the emit function of the operation.
\<close>

datatype emit_fn =
  Fn_noop | Fn_writeByte | Fn_writeVarint32 | Fn_writeVarint64 | Fn_writeFixed32 | Fn_writeString

record Op =
  op_fn :: emit_fn
  op_val :: js_val
  op_len :: nat
  op_next :: "nat option"

text \<open>\<^verbatim>\<open>function Op(fn, val, len)\<close>\<close>
definition new_Op :: "emit_fn \<Rightarrow> js_val \<Rightarrow> nat \<Rightarrow> Op" where
  "new_Op f v l = \<lparr> op_fn = f, op_val = v, op_len = l, op_next = None \<rparr>"

text \<open>\<^verbatim>\<open>function State(writer, next)\<close>; the \<^verbatim>\<open>next\<close> links of the states form the list
  \<open>states\<close> of the writer.\<close>
record State =
  st_head :: nat
  st_tail :: nat
  st_len :: nat

record Writer =
  len :: nat
  head :: nat
  tail :: nat
  states :: "State list"
  heap :: "nat \<Rightarrow> Op"
  fresh :: nat

text \<open>\<^verbatim>\<open>function Writer()\<close>: the head is a new no-op operation, at address 0.\<close>
definition new_Writer :: Writer where
  "new_Writer =
     \<lparr> len = 0, head = 0, tail = 0, states = [],
       heap = (\<lambda>_. new_Op Fn_noop (VNum 0) 0), fresh = 1 \<rparr>"

text \<open>\<^verbatim>\<open>WriterPrototype.push = function push(fn, len, val)\<close>\<close>
definition push :: "Writer \<Rightarrow> emit_fn \<Rightarrow> nat \<Rightarrow> js_val \<Rightarrow> Writer" where
  "push w f l v =
     (let a = fresh w;
          h1 = (heap w)(a := new_Op f v l);
          h2 = h1(tail w := (h1 (tail w))\<lparr> op_next := Some a \<rparr>)
      in w\<lparr> heap := h2, fresh := a + 1, tail := a, len := len w + l \<rparr>)"

text \<open>\<^verbatim>\<open>WriterPrototype.tag = function write_tag(id, wireType)\<close>\<close>
definition tag :: "Writer \<Rightarrow> int \<Rightarrow> int \<Rightarrow> Writer" where
  "tag w fid wireType = push w Fn_writeByte 1 (VNum (js_or (js_shl fid 3) (js_and wireType 7)))"

text \<open>\<^verbatim>\<open>WriterPrototype.uint32 = function write_uint32(value)\<close>\<close>
definition uint32 :: "Writer \<Rightarrow> int \<Rightarrow> Writer" where
  "uint32 w v0 =
     (let v = js_shr v0 0 in
      if v < 128 then push w Fn_writeByte 1 (VNum v)
      else push w Fn_writeVarint32
             (if v < 16384 then 2 else if v < 2097152 then 3 else if v < 268435456 then 4 else 5)
             (VNum v))"

text \<open>\<^verbatim>\<open>WriterPrototype.int32 = function write_int32(value)\<close>\<close>
definition int32 :: "Writer \<Rightarrow> int \<Rightarrow> Writer" where
  "int32 w v =
     (if v < 0 then push w Fn_writeVarint64 10 (VLong (LongBits_fromNumber v)) else uint32 w v)"

text \<open>\<^verbatim>\<open>WriterPrototype.sint32 = function write_sint32(value)\<close>\<close>
definition sint32 :: "Writer \<Rightarrow> int \<Rightarrow> Writer" where
  "sint32 w v = uint32 w (js_xor (js_shl v 1) (js_sar v 31))"

text \<open>\<^verbatim>\<open>WriterPrototype.uint64 = function write_uint64(value)\<close>; \<^verbatim>\<open>int64\<close> is the same
  function.\<close>
definition uint64 :: "Writer \<Rightarrow> int \<Rightarrow> Writer" where
  "uint64 w v = (let bits = LongBits_from v in push w Fn_writeVarint64 (LongBits_length bits) (VLong bits))"

definition int64 :: "Writer \<Rightarrow> int \<Rightarrow> Writer" where
  "int64 = uint64"

text \<open>\<^verbatim>\<open>WriterPrototype.sint64 = function sint64(value)\<close>\<close>
definition sint64 :: "Writer \<Rightarrow> int \<Rightarrow> Writer" where
  "sint64 w v =
     (let bits = zzEncode (LongBits_from v) in push w Fn_writeVarint64 (LongBits_length bits) (VLong bits))"

text \<open>\<^verbatim>\<open>WriterPrototype.bool = function write_bool(value)\<close>\<close>
definition bool :: "Writer \<Rightarrow> bool \<Rightarrow> Writer" where
  "bool w b = push w Fn_writeByte 1 (VNum (if b then 1 else 0))"

text \<open>\<^verbatim>\<open>WriterPrototype.fixed32 = function write_fixed32(value)\<close>\<close>
definition fixed32 :: "Writer \<Rightarrow> int \<Rightarrow> Writer" where
  "fixed32 w v = push w Fn_writeFixed32 4 (VNum (js_shr v 0))"

text \<open>\<^verbatim>\<open>WriterPrototype.sfixed32 = function write_sfixed32(value)\<close>\<close>
definition sfixed32 :: "Writer \<Rightarrow> int \<Rightarrow> Writer" where
  "sfixed32 w v = push w Fn_writeFixed32 4 (VNum (js_xor (js_shl v 1) (js_sar v 31)))"

text \<open>\<^verbatim>\<open>WriterPrototype.fixed64 = function write_fixed64(value)\<close>\<close>
definition fixed64 :: "Writer \<Rightarrow> int \<Rightarrow> Writer" where
  "fixed64 w v =
     (let bits = LongBits_from v
      in push (push w Fn_writeFixed32 4 (VNum (hi bits))) Fn_writeFixed32 4 (VNum (lo bits)))"

text \<open>\<^verbatim>\<open>WriterPrototype.sfixed64 = function write_sfixed64(value)\<close>\<close>
definition sfixed64 :: "Writer \<Rightarrow> int \<Rightarrow> Writer" where
  "sfixed64 w v =
     (let bits = zzEncode (LongBits_from v)
      in push (push w Fn_writeFixed32 4 (VNum (hi bits))) Fn_writeFixed32 4 (VNum (lo bits)))"

text \<open>\<^verbatim>\<open>WriterPrototype.string = function write_string(value)\<close>\<close>
definition string :: "Writer \<Rightarrow> js_string \<Rightarrow> Writer" where
  "string w v =
     (let n = byteLength v in
      if n \<noteq> 0 then push (uint32 w (int n)) Fn_writeString n (VStr v)
      else push w Fn_writeByte 1 (VNum 0))"

text \<open>\<^verbatim>\<open>WriterPrototype.fork = function fork()\<close>\<close>
definition fork :: "Writer \<Rightarrow> Writer" where
  "fork w =
     (let a = fresh w in
      w\<lparr> states := \<lparr> st_head = head w, st_tail = tail w, st_len = len w \<rparr> # states w,
         heap := (heap w)(a := new_Op Fn_noop (VNum 0) 0), fresh := a + 1,
         head := a, tail := a, len := 0 \<rparr>)"

text \<open>\<^verbatim>\<open>WriterPrototype.reset = function reset()\<close>\<close>
definition reset :: "Writer \<Rightarrow> Writer" where
  "reset w =
     (case states w of
        s # ss \<Rightarrow> w\<lparr> head := st_head s, tail := st_tail s, len := st_len s, states := ss \<rparr>
      | [] \<Rightarrow>
          (let a = fresh w in
           w\<lparr> heap := (heap w)(a := new_Op Fn_noop (VNum 0) 0), fresh := a + 1,
              head := a, tail := a, len := 0 \<rparr>))"

text \<open>\<^verbatim>\<open>WriterPrototype.ldelim = function ldelim(id)\<close>; an \<^verbatim>\<open>id\<close> left out is \<open>None\<close>.\<close>
definition ldelim :: "Writer \<Rightarrow> int option \<Rightarrow> Writer" where
  "ldelim w fid =
     (let head0 = head w; tail0 = tail w; len0 = len w;
          w1 = reset w;
          w2 = (case fid of None \<Rightarrow> w1 | Some i \<Rightarrow> tag w1 i 2);
          w3 = uint32 w2 (int len0);
          h = heap w3
      in w3\<lparr> heap := h(tail w3 := (h (tail w3))\<lparr> op_next := op_next (h head0) \<rparr>),
            tail := tail0, len := len w3 + len0 \<rparr>)"

text \<open>\<^verbatim>\<open>head.fn(buf, pos, head.val)\<close>. The public operations pair every emit function
  with a value of its kind; any other pairing leaves the buffer as it is.\<close>
fun call_fn :: "emit_fn \<Rightarrow> buffer \<Rightarrow> nat \<Rightarrow> js_val \<Rightarrow> buffer" where
  "call_fn Fn_writeByte buf pos (VNum n) = writeByte buf pos n"
| "call_fn Fn_writeVarint32 buf pos (VNum n) = writeVarint32 buf pos n"
| "call_fn Fn_writeVarint64 buf pos (VLong b) = writeVarint64 buf pos b"
| "call_fn Fn_writeFixed32 buf pos (VNum n) = writeFixed32 buf pos n"
| "call_fn Fn_writeString buf pos (VStr s) = writeString buf pos s"
| "call_fn _ buf pos _ = buf"

text \<open>
  \<^verbatim>\<open>function finish_internal(head, buf)\<close>. The walk follows the \<^verbatim>\<open>next\<close> links until
  \<^verbatim>\<open>null\<close>; on a cyclic list it would not return, which is the value \<open>None\<close>.
\<close>
partial_function (option) finish_internal_loop ::
    "(nat \<Rightarrow> Op) \<Rightarrow> nat option \<Rightarrow> buffer \<Rightarrow> nat \<Rightarrow> buffer option" where
  "finish_internal_loop h p buf pos =
     (case p of
        None \<Rightarrow> Some buf
      | Some a \<Rightarrow>
          finish_internal_loop h (op_next (h a))
            (call_fn (op_fn (h a)) buf pos (op_val (h a))) (pos + op_len (h a)))"

declare finish_internal_loop.simps [code]

definition finish_internal :: "(nat \<Rightarrow> Op) \<Rightarrow> nat option \<Rightarrow> buffer \<Rightarrow> buffer option" where
  "finish_internal h p buf = finish_internal_loop h p buf 0"

text \<open>\<^verbatim>\<open>WriterPrototype.finish = function finish()\<close>: the buffer returned, and the writer
  as \<^verbatim>\<open>reset\<close> leaves it.\<close>
definition finish :: "Writer \<Rightarrow> (buffer \<times> Writer) option" where
  "finish w =
     (let head0 = op_next (heap w (head w));
          buf = new_ArrayImpl (len w);
          w1 = reset w
      in map_option (\<lambda>b. (b, w1)) (finish_internal (heap w1) head0 buf))"

text \<open>The sum of \<^verbatim>\<open>op.len\<close> over the operations reachable from a reference, by the same
  walk.\<close>
partial_function (option) sum_len :: "(nat \<Rightarrow> Op) \<Rightarrow> nat option \<Rightarrow> nat option" where
  "sum_len h p =
     (case p of
        None \<Rightarrow> Some 0
      | Some a \<Rightarrow> Option.bind (sum_len h (op_next (h a))) (\<lambda>n. Some (op_len (h a) + n)))"

declare sum_len.simps [code]

section \<open>Reference notions\<close>

text \<open>
  The operations linked from a reference, as the list of their addresses: \<open>chain h p as\<close>
  holds when following the \<^verbatim>\<open>next\<close> links from \<open>p\<close> visits exactly \<open>as\<close> and then
  reaches \<^verbatim>\<open>null\<close>. \<open>walk\<close> emits the operations of such a list in order, each at the
  position that the lengths before it add up to.
\<close>
primrec chain :: "(nat \<Rightarrow> Op) \<Rightarrow> nat option \<Rightarrow> nat list \<Rightarrow> bool" where
  "chain h p [] \<longleftrightarrow> p = None"
| "chain h p (a # as) \<longleftrightarrow> p = Some a \<and> chain h (op_next (h a)) as"

primrec walk :: "(nat \<Rightarrow> Op) \<Rightarrow> nat list \<Rightarrow> buffer \<Rightarrow> nat \<Rightarrow> buffer" where
  "walk h [] buf pos = buf"
| "walk h (a # as) buf pos =
     walk h as (call_fn (op_fn (h a)) buf pos (op_val (h a))) (pos + op_len (h a))"

text \<open>
  The varint of the wire format, in the spec's words: each byte carries 7 payload bits,
  least-significant group first, and its high bit is set if and only if more bytes
  follow.
\<close>
function varint_bytes :: "int \<Rightarrow> int list" where
  "varint_bytes v = (if v > 127 then (v mod 128 + 128) # varint_bytes (v div 128) else [v])"
  by pat_completeness auto
termination
  by (relation "measure nat") auto

text \<open>
  Modelled from the spec: the reader is a peer component outside the sources at hand.
  It reads a varint by adding up the 7-bit groups until a byte without the high bit, and
  undoes the zig-zag transform of a 32-bit value by \<^verbatim>\<open>(n >>> 1) ^ -(n & 1)\<close>.
\<close>
fun decode_varint :: "int list \<Rightarrow> int" where
  "decode_varint [] = 0"
| "decode_varint (b # bs) = b mod 128 + 128 * (if b \<ge> 128 then decode_varint bs else 0)"

definition zigzag_decode32 :: "int \<Rightarrow> int" where
  "zigzag_decode32 n = js_xor (js_shr n 1) (- js_and n 1)"

text \<open>
  \<open>frame buf pos buf' pos'\<close>: the buffer \<open>buf'\<close> differs from \<open>buf\<close> at most at the
  indices from \<open>pos\<close> up to, not including, \<open>pos'\<close>.
\<close>
definition frame :: "buffer \<Rightarrow> nat \<Rightarrow> buffer \<Rightarrow> nat \<Rightarrow> bool" where
  "frame buf pos buf' pos' \<longleftrightarrow>
     pos \<le> pos' \<and> length buf' = length buf \<and> take pos buf' = take pos buf
     \<and> drop pos' buf' = drop pos' buf"

text \<open>
  The 64-bit value that a LongBits stands for, and the condition that its halves are
  unsigned 32-bit numbers.
\<close>
definition uint64_of :: "LongBits \<Rightarrow> int" where
  "uint64_of b = hi b * 4294967296 + lo b"

definition halves_ok :: "LongBits \<Rightarrow> bool" where
  "halves_ok b \<longleftrightarrow> 0 \<le> lo b \<and> lo b < 4294967296 \<and> 0 \<le> hi b \<and> hi b < 4294967296"

text \<open>A 32-bit group in little-endian order: the four bytes of an unsigned 32-bit
  number, least significant first.\<close>
definition le32 :: "int \<Rightarrow> int list" where
  "le32 x = [x mod 256, x div 256 mod 256, x div 65536 mod 256, x div 16777216 mod 256]"

section \<open>The calls of a writer and the frames they build\<close>

text \<open>
  A call of one of the public operations, and a sequence of calls run on a writer from left
  to right. \<^verbatim>\<open>ldelim\<close> takes an optional field id. The writes \<^verbatim>\<open>float\<close>, \<^verbatim>\<open>double\<close> and
  \<^verbatim>\<open>bytes\<close>, whose emit functions are not among those above, are left out.
\<close>
datatype call =
    Tag int int | Uint32 int | Int32 int | Sint32 int | Uint64 int | Int64 int | Sint64 int
  | Bool bool | Fixed32 int | Sfixed32 int | Fixed64 int | Sfixed64 int | String js_string
  | Fork | Reset | Ldelim "int option"

fun do_call :: "Writer \<Rightarrow> call \<Rightarrow> Writer" where
  "do_call w (Tag fid wt) = tag w fid wt"
| "do_call w (Uint32 v) = uint32 w v"
| "do_call w (Int32 v) = int32 w v"
| "do_call w (Sint32 v) = sint32 w v"
| "do_call w (Uint64 v) = uint64 w v"
| "do_call w (Int64 v) = int64 w v"
| "do_call w (Sint64 v) = sint64 w v"
| "do_call w (Bool b) = bool w b"
| "do_call w (Fixed32 v) = fixed32 w v"
| "do_call w (Sfixed32 v) = sfixed32 w v"
| "do_call w (Fixed64 v) = fixed64 w v"
| "do_call w (Sfixed64 v) = sfixed64 w v"
| "do_call w (String s) = string w s"
| "do_call w Fork = fork w"
| "do_call w Reset = reset w"
| "do_call w (Ldelim fid) = ldelim w fid"

definition run :: "Writer \<Rightarrow> call list \<Rightarrow> Writer" where
  "run w cs = foldl do_call w cs"

text \<open>
  An operation as the queue holds it, without its link: the emit function, the length and
  the value. \<open>tag_entry\<close>, \<open>uint32_entry\<close> and \<open>entries_of\<close> give the operations that a
  write pushes, read off the bodies of \<^verbatim>\<open>tag\<close>, \<^verbatim>\<open>uint32\<close> and the other write operations;
  \<open>ldelim_entries\<close> are the operations that \<^verbatim>\<open>ldelim\<close> pushes for a closed frame of length
  \<open>l\<close>. \<open>entries_len\<close> adds up the lengths and \<open>emit_entries\<close> emits a list of operations in
  order, each at the position that the lengths before it add up to.
\<close>
type_synonym entry = "emit_fn \<times> nat \<times> js_val"

definition tag_entry :: "int \<Rightarrow> int \<Rightarrow> entry" where
  "tag_entry fid wt = (Fn_writeByte, 1, VNum (js_or (js_shl fid 3) (js_and wt 7)))"

definition uint32_entry :: "int \<Rightarrow> entry" where
  "uint32_entry v0 =
     (let v = js_shr v0 0 in
      if v < 128 then (Fn_writeByte, 1, VNum v)
      else (Fn_writeVarint32,
            if v < 16384 then 2 else if v < 2097152 then 3 else if v < 268435456 then 4 else 5,
            VNum v))"

fun entries_of :: "call \<Rightarrow> entry list" where
  "entries_of (Tag fid wt) = [tag_entry fid wt]"
| "entries_of (Uint32 v) = [uint32_entry v]"
| "entries_of (Int32 v) =
     [if v < 0 then (Fn_writeVarint64, 10, VLong (LongBits_fromNumber v)) else uint32_entry v]"
| "entries_of (Sint32 v) = [uint32_entry (js_xor (js_shl v 1) (js_sar v 31))]"
| "entries_of (Uint64 v) =
     [(Fn_writeVarint64, LongBits_length (LongBits_from v), VLong (LongBits_from v))]"
| "entries_of (Int64 v) =
     [(Fn_writeVarint64, LongBits_length (LongBits_from v), VLong (LongBits_from v))]"
| "entries_of (Sint64 v) =
     [(Fn_writeVarint64, LongBits_length (zzEncode (LongBits_from v)),
       VLong (zzEncode (LongBits_from v)))]"
| "entries_of (Bool b) = [(Fn_writeByte, 1, VNum (if b then 1 else 0))]"
| "entries_of (Fixed32 v) = [(Fn_writeFixed32, 4, VNum (js_shr v 0))]"
| "entries_of (Sfixed32 v) = [(Fn_writeFixed32, 4, VNum (js_xor (js_shl v 1) (js_sar v 31)))]"
| "entries_of (Fixed64 v) =
     [(Fn_writeFixed32, 4, VNum (hi (LongBits_from v))),
      (Fn_writeFixed32, 4, VNum (lo (LongBits_from v)))]"
| "entries_of (Sfixed64 v) =
     [(Fn_writeFixed32, 4, VNum (hi (zzEncode (LongBits_from v)))),
      (Fn_writeFixed32, 4, VNum (lo (zzEncode (LongBits_from v))))]"
| "entries_of (String s) =
     (if byteLength s \<noteq> 0
      then [uint32_entry (int (byteLength s)), (Fn_writeString, byteLength s, VStr s)]
      else [(Fn_writeByte, 1, VNum 0)])"
| "entries_of Fork = []"
| "entries_of Reset = []"
| "entries_of (Ldelim fid) = []"

definition ldelim_entries :: "int option \<Rightarrow> nat \<Rightarrow> entry list" where
  "ldelim_entries fid l =
     (case fid of None \<Rightarrow> [] | Some i \<Rightarrow> [tag_entry i 2]) @ [uint32_entry (int l)]"

fun is_scalar :: "call \<Rightarrow> bool" where
  "is_scalar Fork \<longleftrightarrow> False"
| "is_scalar Reset \<longleftrightarrow> False"
| "is_scalar (Ldelim fid) \<longleftrightarrow> False"
| "is_scalar c \<longleftrightarrow> True"

definition entries_len :: "entry list \<Rightarrow> nat" where
  "entries_len es = sum_list (map (\<lambda>e. fst (snd e)) es)"

fun emit_entries :: "entry list \<Rightarrow> buffer \<Rightarrow> nat \<Rightarrow> buffer" where
  "emit_entries [] buf pos = buf"
| "emit_entries ((f, l, v) # es) buf pos = emit_entries es (call_fn f buf pos v) (pos + l)"

text \<open>
  The frames of a writer, in the spec's words: the current frame first, then the frames
  that \<^verbatim>\<open>fork\<close> has put aside, each one the list of the operations written in it. A write
  appends its operations to the current frame; \<^verbatim>\<open>fork\<close> opens an empty frame; \<^verbatim>\<open>reset\<close>
  drops the current frame, going back to the frame below or to an empty one;
  \<^verbatim>\<open>ldelim\<close> closes the current frame into the frame below as the tag (when an id is
  given), the length of the closed frame as a \<^verbatim>\<open>uint32\<close>, and the operations of the closed
  frame.
\<close>
fun frames_step :: "entry list list \<Rightarrow> call \<Rightarrow> entry list list" where
  "frames_step (xs # r) Fork = [] # xs # r"
| "frames_step (xs # ys # r) Reset = ys # r"
| "frames_step [xs] Reset = [[]]"
| "frames_step (xs # ys # r) (Ldelim fid) =
     (ys @ (case fid of None \<Rightarrow> [] | Some i \<Rightarrow> [tag_entry i 2])
         @ [uint32_entry (int (entries_len xs))] @ xs) # r"
| "frames_step [xs] (Ldelim fid) = [xs]"
| "frames_step (xs # r) c = (xs @ entries_of c) # r"
| "frames_step [] c = []"

definition frames_run :: "entry list list \<Rightarrow> call list \<Rightarrow> entry list list" where
  "frames_run fs cs = foldl frames_step fs cs"

text \<open>
  The sequences of calls considered: \<^verbatim>\<open>ldelim\<close> is called only inside a fork (the spec
  leaves it undefined otherwise) and only on a frame that holds an operation. Closing an
  empty frame is the case in which the queue loses its tail; it is treated in the section
  on fork and ldelim on an empty frame.
\<close>
fun ok_call :: "entry list list \<Rightarrow> call \<Rightarrow> bool" where
  "ok_call (xs # ys # r) (Ldelim fid) \<longleftrightarrow> xs \<noteq> []"
| "ok_call fs (Ldelim fid) \<longleftrightarrow> False"
| "ok_call fs c \<longleftrightarrow> True"

fun ok_calls :: "entry list list \<Rightarrow> call list \<Rightarrow> bool" where
  "ok_calls fs [] \<longleftrightarrow> True"
| "ok_calls fs (c # cs) \<longleftrightarrow> ok_call fs c \<and> ok_calls (frames_step fs c) cs"

section \<open>The frames as the queue links them\<close>

text \<open>
  What the operations do to the linked queue, frame by frame. A frame is described by the
  operations linked from its head, by whether its \<^verbatim>\<open>tail\<close> is the last of them, and by its
  \<^verbatim>\<open>len\<close>. \<^verbatim>\<open>push\<close> links the new operation behind \<^verbatim>\<open>tail\<close> and adds its length to \<^verbatim>\<open>len\<close>:
  the operation is linked from the head only if the tail was (\<open>apush\<close>). \<^verbatim>\<open>ldelim\<close> links the
  first operation of the closed frame behind \<^verbatim>\<open>tail\<close>, takes the \<^verbatim>\<open>tail\<close> of the closed frame and
  adds its \<^verbatim>\<open>len\<close> (\<open>asplice\<close>): the new tail is linked from the head only if both tails were
  and the closed frame holds an operation, since the tail of an empty frame is its own
  sentinel, which nothing links to. \<open>queue_step\<close> follows the bodies of \<^verbatim>\<open>fork\<close>, \<^verbatim>\<open>reset\<close> and
  \<^verbatim>\<open>ldelim\<close> with these two; outside a fork, \<^verbatim>\<open>reset\<close> and the \<^verbatim>\<open>reset\<close> inside \<^verbatim>\<open>ldelim\<close> start
  from an empty frame. The lemmas of the section on finishing inside a fork show that the
  operations on the store do exactly this. \<open>whole xs\<close> is a frame in which all of \<open>xs\<close> is
  linked and counted.
\<close>
type_synonym aframe = "entry list \<times> bool \<times> nat"

definition fr_ops :: "aframe \<Rightarrow> entry list" where
  "fr_ops fr = fst fr"

definition fr_len :: "aframe \<Rightarrow> nat" where
  "fr_len fr = snd (snd fr)"

definition whole :: "entry list \<Rightarrow> aframe" where
  "whole xs = (xs, True, entries_len xs)"

definition apush :: "aframe \<Rightarrow> entry list \<Rightarrow> aframe" where
  "apush fr es =
     (if fst (snd fr) then fst fr @ es else fst fr, fst (snd fr), snd (snd fr) + entries_len es)"

definition asplice :: "aframe \<Rightarrow> aframe \<Rightarrow> aframe" where
  "asplice fr inner =
     (if fst (snd fr) then fst fr @ fst inner else fst fr,
      fst (snd fr) \<and> fst (snd inner) \<and> fst inner \<noteq> [],
      snd (snd fr) + snd (snd inner))"

fun queue_step :: "aframe list \<Rightarrow> call \<Rightarrow> aframe list" where
  "queue_step (x # r) Fork = ([], True, 0) # x # r"
| "queue_step (x # y # r) Reset = y # r"
| "queue_step [x] Reset = [([], True, 0)]"
| "queue_step (x # y # r) (Ldelim fid) =
     asplice (apush y (ldelim_entries fid (snd (snd x)))) x # r"
| "queue_step [x] (Ldelim fid) =
     [asplice (apush ([], True, 0) (ldelim_entries fid (snd (snd x)))) x]"
| "queue_step (x # r) c = apush x (entries_of c) # r"
| "queue_step [] c = []"

definition queue_run :: "aframe list \<Rightarrow> call list \<Rightarrow> aframe list" where
  "queue_run fs cs = foldl queue_step fs cs"

section \<open>The queue in the store\<close>

text \<open>
  \<open>path h a as t\<close>: the \<^verbatim>\<open>next\<close> links lead from the operation at \<open>a\<close> through the
  addresses \<open>as\<close> to \<open>t\<close>, whose link is \<^verbatim>\<open>null\<close>. A frame in the store is a state
  \<^verbatim>\<open>(head, tail, len)\<close> with two lists of addresses: \<open>as\<close>, the operations linked from the
  sentinel at \<^verbatim>\<open>head\<close>, and \<open>ds\<close>, which is empty when \<^verbatim>\<open>tail\<close> is the last of these, and
  otherwise a separate linked list that ends in \<^verbatim>\<open>tail\<close>. The frames of a writer occupy
  distinct addresses, all of them allocated. \<open>absframe\<close> reads the description of a frame
  off the store.
\<close>
definition entry_of :: "(nat \<Rightarrow> Op) \<Rightarrow> nat \<Rightarrow> entry" where
  "entry_of h a = (op_fn (h a), op_len (h a), op_val (h a))"

primrec path :: "(nat \<Rightarrow> Op) \<Rightarrow> nat \<Rightarrow> nat list \<Rightarrow> nat \<Rightarrow> bool" where
  "path h a [] t \<longleftrightarrow> a = t \<and> op_next (h a) = None"
| "path h a (b # bs) t \<longleftrightarrow> op_next (h a) = Some b \<and> path h b bs t"

type_synonym qframe = "State \<times> nat list \<times> nat list"

definition frame_ok :: "(nat \<Rightarrow> Op) \<Rightarrow> qframe \<Rightarrow> bool" where
  "frame_ok h fr \<longleftrightarrow>
     (let s = fst fr; as = fst (snd fr); ds = snd (snd fr) in
      path h (st_head s) as (last (st_head s # as))
      \<and> (if ds = [] then st_tail s = last (st_head s # as)
         else path h (hd ds) (tl ds) (st_tail s)))"

definition frame_addrs :: "qframe \<Rightarrow> nat list" where
  "frame_addrs fr = st_head (fst fr) # fst (snd fr) @ snd (snd fr)"

definition frames_ok :: "(nat \<Rightarrow> Op) \<Rightarrow> nat \<Rightarrow> qframe list \<Rightarrow> bool" where
  "frames_ok h n frs \<longleftrightarrow>
     list_all (frame_ok h) frs \<and> distinct (concat (map frame_addrs frs))
     \<and> list_all (\<lambda>a. a < n) (concat (map frame_addrs frs))"

definition absframe :: "(nat \<Rightarrow> Op) \<Rightarrow> qframe \<Rightarrow> aframe" where
  "absframe h fr = (map (entry_of h) (fst (snd fr)), snd (snd fr) = [], st_len (fst fr))"

definition content :: "(nat \<Rightarrow> Op) \<Rightarrow> qframe list \<Rightarrow> aframe list" where
  "content h frs = map (absframe h) frs"

text \<open>
  The same for a writer: its current frame is \<^verbatim>\<open>(head, tail, len)\<close>; \<open>inv w ads\<close> says that
  the current frame and the states of the stack are frames in the store with the addresses
  \<open>ads\<close>, and \<open>absf w ads\<close> is the list of their descriptions. \<open>push_entry\<close> is \<^verbatim>\<open>push\<close> on an
  operation given as a triple, and \<open>splice\<close> is the last step of \<^verbatim>\<open>ldelim\<close>: the tail is
  linked to the first operation of the closed frame \<open>d\<close>.
\<close>
definition push_entry :: "Writer \<Rightarrow> entry \<Rightarrow> Writer" where
  "push_entry w e = push w (fst e) (fst (snd e)) (snd (snd e))"

definition cur_state :: "Writer \<Rightarrow> State" where
  "cur_state w = \<lparr> st_head = head w, st_tail = tail w, st_len = len w \<rparr>"

definition splice :: "Writer \<Rightarrow> State \<Rightarrow> Writer" where
  "splice w d =
     w\<lparr> heap := (heap w)(tail w := (heap w (tail w))\<lparr> op_next := op_next (heap w (st_head d)) \<rparr>),
        tail := st_tail d, len := len w + st_len d \<rparr>"

definition winv :: "Writer \<Rightarrow> nat list \<times> nat list \<Rightarrow> qframe list \<Rightarrow> bool" where
  "winv w a ex \<longleftrightarrow> frames_ok (heap w) (fresh w) ((cur_state w, a) # ex)"

definition wcontent :: "Writer \<Rightarrow> nat list \<times> nat list \<Rightarrow> qframe list \<Rightarrow> aframe list" where
  "wcontent w a ex = content (heap w) ((cur_state w, a) # ex)"

definition inv :: "Writer \<Rightarrow> (nat list \<times> nat list) list \<Rightarrow> bool" where
  "inv w ads \<longleftrightarrow>
     ads \<noteq> [] \<and> length (tl ads) = length (states w)
       \<and> winv w (hd ads) (zip (states w) (tl ads))"

definition absf :: "Writer \<Rightarrow> (nat list \<times> nat list) list \<Rightarrow> aframe list" where
  "absf w ads = wcontent w (hd ads) (zip (states w) (tl ads))"

declare writeVarint32_loop.simps [simp del]
declare writeVarint64_loop1.simps [simp del]
declare writeVarint64_loop2.simps [simp del]
declare writeString_loop.simps [simp del]
declare byteLength_loop.simps [simp del]
declare varint_bytes.simps [simp del]
declare bits_needed.simps [simp del]

section \<open>Facts about the 32-bit operators\<close>

lemma ToUint32_take_bit: "ToUint32 x = take_bit 32 x"
  by (simp add: ToUint32_def take_bit_eq_mod)

lemma ToInt32_signed_take_bit: "ToInt32 x = signed_take_bit 31 x"
proof -
  define u where "u = x mod 4294967296"
  have u: "0 \<le> u" "u < 4294967296" by (simp_all add: u_def)
  have "(x + 2147483648) mod 4294967296 = (u + 2147483648) mod 4294967296"
    unfolding u_def by (simp add: mod_add_left_eq)
  also have "\<dots> = (if 2147483648 \<le> u then u - 2147483648 else u + 2147483648)"
  proof (cases "2147483648 \<le> u")
    case True
    have e: "u + 2147483648 = (u - 2147483648) + 4294967296" by simp
    have "(u + 2147483648) mod 4294967296 = (u - 2147483648) mod 4294967296"
      by (simp only: e mod_add_self2)
    also have "\<dots> = u - 2147483648" using True u by (intro mod_pos_pos_trivial) simp_all
    finally show ?thesis using True by simp
  next
    case False
    then show ?thesis using u by simp
  qed
  finally have "(x + 2147483648) mod 4294967296
      = (if 2147483648 \<le> u then u - 2147483648 else u + 2147483648)" .
  then show ?thesis
    by (simp add: ToInt32_def Let_def signed_take_bit_eq_take_bit_shift take_bit_eq_mod u_def)
qed

lemma ToInt32_id: "- 2147483648 \<le> x \<Longrightarrow> x < 2147483648 \<Longrightarrow> ToInt32 x = x"
  unfolding ToInt32_signed_take_bit
  by (rule signed_take_bit_int_eq_self) simp_all

lemma ToUint32_id: "0 \<le> x \<Longrightarrow> x < 4294967296 \<Longrightarrow> ToUint32 x = x"
  by (simp add: ToUint32_def)

lemma ToUint32_ToInt32: "ToUint32 (ToInt32 x) = ToUint32 x"
  by (simp add: ToUint32_take_bit ToInt32_signed_take_bit take_bit_signed_take_bit)

lemma js_and_255: "js_and v 255 = v mod 256"
proof -
  have "js_and v 255 = signed_take_bit 31 v AND mask 8"
    by (simp add: js_and_def ToInt32_signed_take_bit mask_eq_exp_minus_1)
  also have "\<dots> = take_bit 8 (signed_take_bit 31 v)" by (simp add: take_bit_eq_mask)
  also have "\<dots> = take_bit 8 v" by (simp add: take_bit_signed_take_bit)
  finally show ?thesis unfolding take_bit_eq_mod by simp
qed

lemma power2_le_31: "n \<le> 31 \<Longrightarrow> (2::int) ^ n \<le> 2147483648"
  using power_increasing [of n 31 "2::int"] by simp

lemma js_and_mask:
  assumes "0 \<le> v" "v < 2 ^ n" "n \<le> 31"
  shows "js_and v (2 ^ n - 1) = v"
proof -
  have le: "(2::int) ^ n \<le> 2147483648" using assms(3) by (rule power2_le_31)
  have a: "ToInt32 v = v" using assms(1,2) le
    by (intro ToInt32_id) linarith+
  have "(0::int) < 2 ^ n" by simp
  then have b: "ToInt32 (2 ^ n - 1) = 2 ^ n - 1" using le
    by (intro ToInt32_id) linarith+
  have "v AND mask n = take_bit n v" by (simp add: take_bit_eq_mask)
  also have "\<dots> = v" using assms by (simp add: take_bit_int_eq_self)
  finally show ?thesis by (simp add: js_and_def a b mask_eq_exp_minus_1)
qed

lemma js_and_7: "0 \<le> wt \<Longrightarrow> wt < 8 \<Longrightarrow> js_and wt 7 = wt"
  using js_and_mask [of wt 3] by simp

lemmas js_defs =
  js_shr_def js_or_def js_and_def js_shl_def js_sar_def js_xor_def ToInt32_def ToUint32_def

lemmas writer_defs =
  finish_def ldelim_def fork_def reset_def tag_def uint32_def push_def new_Writer_def new_Op_def
  Let_def finish_internal_def finish_internal_loop.simps new_ArrayImpl_def

section \<open>Tags\<close>

lemma finish_tag:
  "map_option fst (finish (tag new_Writer fid wt))
     = Some [js_and (js_or (js_shl fid 3) (js_and wt 7)) 255]"
  by (simp add: writer_defs writeByte_def store_def js_and_255)

lemma tag_small:
  assumes "0 \<le> fid" "fid < 16" "0 \<le> wt" "wt < 8"
  shows "js_and (js_or (js_shl fid 3) (js_and wt 7)) 255 = js_or (js_shl fid 3) wt"
proof -
  have s: "js_shl fid 3 = fid * 8" using assms by (simp add: js_shl_def ToInt32_id)
  have o: "js_or (fid * 8) wt = (fid * 8) OR wt" using assms by (simp add: js_or_def ToInt32_id)
  have "0 \<le> (fid * 8) OR wt" using assms by simp
  moreover have "(fid * 8) OR wt < 2 ^ 8" using assms by (intro OR_upper) simp_all
  ultimately have "((fid * 8) OR wt) mod 256 = (fid * 8) OR wt" by simp
  then show ?thesis using assms by (simp add: js_and_255 js_and_7 s o)
qed

text \<open>
  C10: for every field id and wire type, \<open>tag\<close> enqueues one operation of length 1 with the
  emit function \<open>writeByte\<close> and the value \<open>(id << 3) | (wt & 7)\<close>; the byte that
  \<open>writeByte\<close> stores is that value \<open>& 255\<close>, its low 8 bits, so a writer that holds only
  the tag finishes to this one byte whatever the id is. For \<open>0 \<le> id < 16\<close> and
  \<open>0 \<le> wt < 8\<close> the byte is \<open>(id << 3) | wt\<close>.
\<close>
theorem tag_one_byte:
  "tag w fid wt = push w Fn_writeByte 1 (VNum (js_or (js_shl fid 3) (js_and wt 7)))
   \<and> len (tag w fid wt) = len w + 1
   \<and> writeByte buf pos (js_or (js_shl fid 3) (js_and wt 7))
       = buf[pos := js_and (js_or (js_shl fid 3) (js_and wt 7)) 255]
   \<and> map_option fst (finish (tag new_Writer fid wt))
       = Some [js_and (js_or (js_shl fid 3) (js_and wt 7)) 255]
   \<and> js_and (js_or (js_shl fid 3) (js_and wt 7)) 255
       = js_or (js_shl fid 3) (js_and wt 7) mod 256
   \<and> (0 \<le> fid \<and> fid < 16 \<and> 0 \<le> wt \<and> wt < 8
        \<longrightarrow> js_and (js_or (js_shl fid 3) (js_and wt 7)) 255 = js_or (js_shl fid 3) wt)"
proof -
  have "writeByte buf pos (js_or (js_shl fid 3) (js_and wt 7))
       = buf[pos := js_and (js_or (js_shl fid 3) (js_and wt 7)) 255]"
    by (simp add: writeByte_def store_def js_and_255)
  moreover have "len (tag w fid wt) = len w + 1"
    by (simp add: tag_def push_def Let_def)
  ultimately show ?thesis
    using finish_tag [of fid wt] tag_small [of fid wt] by (simp add: tag_def js_and_255)
qed

theorem tag_one_byte_witness:
  "(0::int) \<le> 1 \<and> (1::int) < 16 \<and> (0::int) \<le> 2 \<and> (2::int) < 8
   \<and> js_and (js_or (js_shl 1 3) (js_and 2 7)) 255 = js_or (js_shl 1 3) 2
   \<and> js_or (js_shl 1 3) 2 = 10
   \<and> map_option fst (finish (tag new_Writer 1 2)) = Some [10]"
proof -
  note t = tag_one_byte [of new_Writer 1 2 "[]" 0]
  have v: "js_or (js_shl 1 3) 2 = 10" by (simp add: js_defs)
  from t have a: "js_and (js_or (js_shl 1 3) (js_and 2 7)) 255 = js_or (js_shl 1 3) 2"
    by simp
  from t have "map_option fst (finish (tag new_Writer 1 2))
      = Some [js_and (js_or (js_shl 1 3) (js_and 2 7)) 255]"
    by (elim conjE)
  then have b: "map_option fst (finish (tag new_Writer 1 2)) = Some [10]"
    by (simp only: a v)
  show ?thesis using a b v by simp
qed

section \<open>Fork and ldelim on an empty frame\<close>

text \<open>
  C2: three times \<open>fork(); ldelim(1)\<close> on a new writer, then \<open>finish()\<close>. The claim is the
  buffer \<open>0A 00 0A 00 0A 00\<close>. In the code, \<open>ldelim\<close> on an empty frame sets \<open>tail\<close> to the
  sentinel of that frame, which no operation of the outer queue points to; the second and
  third pair of operations are linked behind it and \<open>finish\<close> never reaches them. The
  buffer has the six bytes that \<open>len\<close> counts, and only the first two are written.
\<close>
theorem three_empty_submessages:
  "map_option fst
     (finish (ldelim (fork (ldelim (fork (ldelim (fork new_Writer) (Some 1))) (Some 1))) (Some 1)))
   = Some [10, 0, 0, 0, 0, 0]"
  by (simp add: writer_defs js_defs writeByte_def store_def)

text \<open>
  C3: \<open>len\<close> against the sum of the lengths of the operations reachable from
  \<open>head.next\<close>. After \<open>fork(); ldelim(1); uint32(1)\<close> on a new writer, \<open>len\<close> is 3 and the
  reachable operations sum to 2: the operation that \<open>uint32\<close> pushed is behind the
  sentinel that \<open>ldelim\<close> left in \<open>tail\<close>.
\<close>
theorem len_exceeds_reachable_sum:
  "len (uint32 (ldelim (fork new_Writer) (Some 1)) 1) = 3
   \<and> sum_len (heap (uint32 (ldelim (fork new_Writer) (Some 1)) 1))
        (op_next (heap (uint32 (ldelim (fork new_Writer) (Some 1)) 1)
                   (head (uint32 (ldelim (fork new_Writer) (Some 1)) 1))))
       = Some 2"
  by (simp add: writer_defs js_defs sum_len.simps)

text \<open>
  C4: \<open>fork(); S; ldelim(id)\<close> against the tag, the length and the bytes of \<open>S\<close> written
  to the outer writer. With the empty \<open>S\<close>, the id 1 and a \<open>uint32(1)\<close> that follows, the
  code returns \<open>0A 00 00\<close>; the standalone buffer of \<open>S\<close> is empty, and the tag, its
  length and the following \<open>uint32(1)\<close> on the outer writer give \<open>0A 00 01\<close>. With the
  non-empty \<open>S = uint32(5)\<close> the code returns \<open>0A 01 05 01\<close>, as the claim says.
\<close>
theorem ldelim_empty_then_write:
  "map_option fst (finish (uint32 (ldelim (fork new_Writer) (Some 1)) 1)) = Some [10, 0, 0]
   \<and> map_option fst (finish new_Writer) = Some []
   \<and> map_option fst (finish (uint32 (uint32 (tag new_Writer 1 2) (int (length ([] :: buffer)))) 1))
       = Some [10, 0, 1]
   \<and> map_option fst (finish (uint32 (ldelim (uint32 (fork new_Writer) 5) (Some 1)) 1))
       = Some [10, 1, 5, 1]"
  by (simp add: writer_defs js_defs writeByte_def store_def)

section \<open>Buffers and the operations of a frame\<close>

lemma length_store [simp]: "length (store buf pos v) = length buf"
  by (simp add: store_def)

lemma take_store [simp]: "p \<le> q \<Longrightarrow> take p (store buf q v) = take p buf"
  by (simp add: store_def)

lemma drop_store [simp]: "q < p \<Longrightarrow> drop p (store buf q v) = drop p buf"
  by (simp add: store_def)

lemma frame_refl: "frame buf pos buf pos"
  by (simp add: frame_def)

lemma frame_store:
  assumes "frame (store buf q v) p B P" and "p = q + 1"
  shows "frame buf q B P"
proof -
  from assms have h: "q + 1 \<le> P" "length B = length buf"
    "take (q + 1) B = take (q + 1) (store buf q v)" "drop P B = drop P buf"
    by (simp_all add: frame_def)
  have "take q B = take q (take (q + 1) B)" by (simp add: min_def)
  also have "\<dots> = take q buf" unfolding h(3) by (simp add: min_def)
  finally show ?thesis using h by (simp add: frame_def)
qed

lemma finish_internal_loop_chain:
  "chain h p as \<Longrightarrow> finish_internal_loop h p buf pos = Some (walk h as buf pos)"
  by (induction as arbitrary: p buf pos) (simp_all add: finish_internal_loop.simps)

section \<open>Strings\<close>

lemma writeString_loop_frame:
  "frame buf pos (fst (writeString_loop buf pos val i)) (snd (writeString_loop buf pos val i))"
proof (induction buf pos val i rule: writeString_loop.induct)
  case (1 buf pos val i)
  show ?case
  proof (cases "i < length val")
    case False
    then show ?thesis by (subst (1 2) writeString_loop.simps) (simp add: frame_refl)
  next
    case lt: True
    define c1 where "c1 = val ! i"
    define c2 where "c2 = nan_to_zero (charCodeAt val (i + 1))"
    define c where "c = 0x10000 + js_shl (js_and c1 0x03FF) 10 + js_and c2 0x03FF"
    consider (a) "c1 < 128"
      | (b) "\<not> c1 < 128" "c1 < 2048"
      | (c) "\<not> c1 < 128" "\<not> c1 < 2048" "js_and c1 0xFC00 = 0xD800 \<and> js_and c2 0xFC00 = 0xDC00"
      | (d) "\<not> c1 < 128" "\<not> c1 < 2048" "\<not> (js_and c1 0xFC00 = 0xD800 \<and> js_and c2 0xFC00 = 0xDC00)"
      by blast
    then show ?thesis
    proof cases
      case a
      have r: "writeString_loop buf pos val i = writeString_loop (store buf pos (c1)) (pos + 1) val (i + 1)"
        using lt a by (subst writeString_loop.simps) (auto simp add: c1_def c2_def c_def Let_def)
      have "frame (store buf pos (c1)) (pos + 1)
          (fst (writeString_loop buf pos val i)) (snd (writeString_loop buf pos val i))"
        unfolding r by (rule "1.IH"(1) [OF lt c1_def c2_def a])
      then show ?thesis by (rule frame_store) simp
    next
      case b
      have r: "writeString_loop buf pos val i = writeString_loop (store (store buf pos (js_or (js_sar c1 6) 192)) (pos + 1) (js_or (js_and c1 63) 128)) (pos + 2) val (i + 1)"
        using lt b by (subst writeString_loop.simps) (auto simp add: c1_def c2_def c_def Let_def)
      have "frame (store (store buf pos (js_or (js_sar c1 6) 192)) (pos + 1) (js_or (js_and c1 63) 128)) (pos + 2)
          (fst (writeString_loop buf pos val i)) (snd (writeString_loop buf pos val i))"
        unfolding r by (rule "1.IH"(2) [OF lt c1_def c2_def b(1) b(2)])
      then have "frame (store buf pos (js_or (js_sar c1 6) 192)) (pos + 1)
          (fst (writeString_loop buf pos val i)) (snd (writeString_loop buf pos val i))"
        by (rule frame_store) simp
      then show ?thesis by (rule frame_store) simp
    next
      case c
      have r: "writeString_loop buf pos val i = writeString_loop (store (store (store (store buf pos (js_or (js_sar c 18) 240)) (pos + 1) (js_or (js_and (js_sar c 12) 63) 128)) (pos + 2) (js_or (js_and (js_sar c 6) 63) 128)) (pos + 3) (js_or (js_and c 63) 128)) (pos + 4) val (i + 2)"
        using lt c by (subst writeString_loop.simps) (auto simp add: c1_def c2_def c_def Let_def)
      have "frame (store (store (store (store buf pos (js_or (js_sar c 18) 240)) (pos + 1) (js_or (js_and (js_sar c 12) 63) 128)) (pos + 2) (js_or (js_and (js_sar c 6) 63) 128)) (pos + 3) (js_or (js_and c 63) 128)) (pos + 4)
          (fst (writeString_loop buf pos val i)) (snd (writeString_loop buf pos val i))"
        unfolding r by (rule "1.IH"(3) [OF lt c1_def c2_def c(1) c(2) c(3) c_def])
      then have "frame (store (store (store buf pos (js_or (js_sar c 18) 240)) (pos + 1) (js_or (js_and (js_sar c 12) 63) 128)) (pos + 2) (js_or (js_and (js_sar c 6) 63) 128)) (pos + 3)
          (fst (writeString_loop buf pos val i)) (snd (writeString_loop buf pos val i))"
        by (rule frame_store) simp
      then have "frame (store (store buf pos (js_or (js_sar c 18) 240)) (pos + 1) (js_or (js_and (js_sar c 12) 63) 128)) (pos + 2)
          (fst (writeString_loop buf pos val i)) (snd (writeString_loop buf pos val i))"
        by (rule frame_store) simp
      then have "frame (store buf pos (js_or (js_sar c 18) 240)) (pos + 1)
          (fst (writeString_loop buf pos val i)) (snd (writeString_loop buf pos val i))"
        by (rule frame_store) simp
      then show ?thesis by (rule frame_store) simp
    next
      case d
      have r: "writeString_loop buf pos val i = writeString_loop (store (store (store buf pos (js_or (js_sar c1 12) 224)) (pos + 1) (js_or (js_and (js_sar c1 6) 63) 128)) (pos + 2) (js_or (js_and c1 63) 128)) (pos + 3) val (i + 1)"
        using lt d by (subst writeString_loop.simps) (auto simp add: c1_def c2_def c_def Let_def)
      have "frame (store (store (store buf pos (js_or (js_sar c1 12) 224)) (pos + 1) (js_or (js_and (js_sar c1 6) 63) 128)) (pos + 2) (js_or (js_and c1 63) 128)) (pos + 3)
          (fst (writeString_loop buf pos val i)) (snd (writeString_loop buf pos val i))"
        unfolding r by (rule "1.IH"(4) [OF lt c1_def c2_def d(1) d(2) d(3)])
      then have "frame (store (store buf pos (js_or (js_sar c1 12) 224)) (pos + 1) (js_or (js_and (js_sar c1 6) 63) 128)) (pos + 2)
          (fst (writeString_loop buf pos val i)) (snd (writeString_loop buf pos val i))"
        by (rule frame_store) simp
      then have "frame (store buf pos (js_or (js_sar c1 12) 224)) (pos + 1)
          (fst (writeString_loop buf pos val i)) (snd (writeString_loop buf pos val i))"
        by (rule frame_store) simp
      then show ?thesis by (rule frame_store) simp
    qed
  qed
qed

lemma writeString_loop_byteLength_loop:
  "snd (writeString_loop buf pos val i) + n = pos + byteLength_loop val (length val) i n"
proof (induction buf pos val i arbitrary: n rule: writeString_loop.induct)
  case (1 buf pos val i)
  show ?case
  proof (cases "i < length val")
    case False
    then show ?thesis
      by (subst writeString_loop.simps, subst byteLength_loop.simps) simp
  next
    case lt: True
    define c1 where "c1 = val ! i"
    define c2 where "c2 = nan_to_zero (charCodeAt val (i + 1))"
    define c where "c = 0x10000 + js_shl (js_and c1 0x03FF) 10 + js_and c2 0x03FF"
    consider (a) "c1 < 128"
      | (b) "\<not> c1 < 128" "c1 < 2048"
      | (c) "\<not> c1 < 128" "\<not> c1 < 2048" "js_and c1 0xFC00 = 0xD800 \<and> js_and c2 0xFC00 = 0xDC00"
      | (d) "\<not> c1 < 128" "\<not> c1 < 2048" "\<not> (js_and c1 0xFC00 = 0xD800 \<and> js_and c2 0xFC00 = 0xDC00)"
      by blast
    then show ?thesis
    proof cases
      case a
      have r: "writeString_loop buf pos val i = writeString_loop (store buf pos (c1)) (pos + 1) val (i + 1)"
        using lt a by (subst writeString_loop.simps) (auto simp add: c1_def c2_def c_def Let_def)
      have bl: "byteLength_loop val (length val) i n = byteLength_loop val (length val) (i + 1) (n + 1)"
        using lt a by (subst byteLength_loop.simps) (auto simp add: c1_def c2_def Let_def)
      have "snd (writeString_loop (store buf pos (c1)) (pos + 1) val (i + 1)) + (n + 1)
          = (pos + 1) + byteLength_loop val (length val) (i + 1) (n + 1)"
        by (rule "1.IH"(1) [OF lt c1_def c2_def a])
      then show ?thesis unfolding r bl by simp
    next
      case b
      have r: "writeString_loop buf pos val i = writeString_loop (store (store buf pos (js_or (js_sar c1 6) 192)) (pos + 1) (js_or (js_and c1 63) 128)) (pos + 2) val (i + 1)"
        using lt b by (subst writeString_loop.simps) (auto simp add: c1_def c2_def c_def Let_def)
      have bl: "byteLength_loop val (length val) i n = byteLength_loop val (length val) (i + 1) (n + 2)"
        using lt b by (subst byteLength_loop.simps) (auto simp add: c1_def c2_def Let_def)
      have "snd (writeString_loop (store (store buf pos (js_or (js_sar c1 6) 192)) (pos + 1) (js_or (js_and c1 63) 128)) (pos + 2) val (i + 1)) + (n + 2)
          = (pos + 2) + byteLength_loop val (length val) (i + 1) (n + 2)"
        by (rule "1.IH"(2) [OF lt c1_def c2_def b(1) b(2)])
      then show ?thesis unfolding r bl by simp
    next
      case c
      have r: "writeString_loop buf pos val i = writeString_loop (store (store (store (store buf pos (js_or (js_sar c 18) 240)) (pos + 1) (js_or (js_and (js_sar c 12) 63) 128)) (pos + 2) (js_or (js_and (js_sar c 6) 63) 128)) (pos + 3) (js_or (js_and c 63) 128)) (pos + 4) val (i + 2)"
        using lt c by (subst writeString_loop.simps) (auto simp add: c1_def c2_def c_def Let_def)
      have bl: "byteLength_loop val (length val) i n = byteLength_loop val (length val) (i + 2) (n + 4)"
        using lt c by (subst byteLength_loop.simps) (auto simp add: c1_def c2_def Let_def)
      have "snd (writeString_loop (store (store (store (store buf pos (js_or (js_sar c 18) 240)) (pos + 1) (js_or (js_and (js_sar c 12) 63) 128)) (pos + 2) (js_or (js_and (js_sar c 6) 63) 128)) (pos + 3) (js_or (js_and c 63) 128)) (pos + 4) val (i + 2)) + (n + 4)
          = (pos + 4) + byteLength_loop val (length val) (i + 2) (n + 4)"
        by (rule "1.IH"(3) [OF lt c1_def c2_def c(1) c(2) c(3) c_def])
      then show ?thesis unfolding r bl by simp
    next
      case d
      have r: "writeString_loop buf pos val i = writeString_loop (store (store (store buf pos (js_or (js_sar c1 12) 224)) (pos + 1) (js_or (js_and (js_sar c1 6) 63) 128)) (pos + 2) (js_or (js_and c1 63) 128)) (pos + 3) val (i + 1)"
        using lt d by (subst writeString_loop.simps) (auto simp add: c1_def c2_def c_def Let_def)
      have bl: "byteLength_loop val (length val) i n = byteLength_loop val (length val) (i + 1) (n + 3)"
        using lt d by (subst byteLength_loop.simps) (auto simp add: c1_def c2_def Let_def)
      have "snd (writeString_loop (store (store (store buf pos (js_or (js_sar c1 12) 224)) (pos + 1) (js_or (js_and (js_sar c1 6) 63) 128)) (pos + 2) (js_or (js_and c1 63) 128)) (pos + 3) val (i + 1)) + (n + 3)
          = (pos + 3) + byteLength_loop val (length val) (i + 1) (n + 3)"
        by (rule "1.IH"(4) [OF lt c1_def c2_def d(1) d(2) d(3)])
      then show ?thesis unfolding r bl by simp
    qed
  qed
qed
lemma byteLength_strlen:
  assumes "length s < 2 ^ 32"
  shows "byteLength s = byteLength_loop s (length s) 0 0"
proof -
  have "int (length s) < 4294967296" using assms by simp
  then have "js_shr (int (length s)) 0 = int (length s)"
    by (simp add: js_shr_def ToUint32_def)
  then show ?thesis by (simp add: byteLength_def)
qed

text \<open>
  C5: for every string \<open>s\<close> (any sequence of code units, with surrogates paired or not, at
  any position) of a length below \<open>2^32\<close>, \<open>writeString\<close> advances the position by
  \<open>byteLength s\<close>, the length that \<open>string\<close> enqueues for it; the buffer keeps its length
  and is unchanged below \<open>pos\<close> and from \<open>pos + byteLength s\<close> on.
\<close>
theorem writeString_writes_byteLength:
  assumes "length s < 2 ^ 32"
  shows "snd (writeString_loop buf pos s 0) = pos + byteLength s
     \<and> length (writeString buf pos s) = length buf
     \<and> take pos (writeString buf pos s) = take pos buf
     \<and> drop (pos + byteLength s) (writeString buf pos s) = drop (pos + byteLength s) buf
     \<and> call_fn Fn_writeString buf pos (VStr s) = writeString buf pos s
     \<and> string w s =
         (if byteLength s \<noteq> 0
          then push (uint32 w (int (byteLength s))) Fn_writeString (byteLength s) (VStr s)
          else push w Fn_writeByte 1 (VNum 0))"
proof -
  have n: "snd (writeString_loop buf pos s 0) = pos + byteLength s"
    using writeString_loop_byteLength_loop [of buf pos s 0 0] byteLength_strlen [OF assms] by simp
  have "frame buf pos (writeString buf pos s) (pos + byteLength s)"
    using writeString_loop_frame [of buf pos s 0] unfolding n writeString_def .
  then show ?thesis using n by (simp add: frame_def string_def Let_def)
qed

theorem writeString_writes_byteLength_witness:
  "length [0xD834, 0xDD1E, 0xD800 :: int] < 2 ^ 32
   \<and> byteLength [0xD834, 0xDD1E, 0xD800] = 7
   \<and> snd (writeString_loop [0, 0, 0, 0, 0, 0, 0, 0, 0] 1 [0xD834, 0xDD1E, 0xD800] 0) = 8
   \<and> writeString [0, 0, 0, 0, 0, 0, 0, 0, 0] 1 [0xD834, 0xDD1E, 0xD800]
       = [0, 240, 157, 132, 158, 237, 160, 128, 0]"
proof -
  have l: "length [0xD834, 0xDD1E, 0xD800 :: int] < 2 ^ 32" by simp
  have b: "byteLength [0xD834, 0xDD1E, 0xD800] = 7" by code_simp
  have w: "writeString [0, 0, 0, 0, 0, 0, 0, 0, 0] 1 [0xD834, 0xDD1E, 0xD800]
       = [0, 240, 157, 132, 158, 237, 160, 128, 0]" by code_simp
  from writeString_writes_byteLength [OF l, of "[0, 0, 0, 0, 0, 0, 0, 0, 0]" 1 new_Writer]
  have "snd (writeString_loop [0, 0, 0, 0, 0, 0, 0, 0, 0] 1 [0xD834, 0xDD1E, 0xD800] 0) = 1 + 7"
    unfolding b by blast
  then show ?thesis using l b w by simp
qed

section \<open>Finishing inside a fork\<close>

lemma length_writeVarint32_loop [simp]:
  "length (fst (writeVarint32_loop buf pos v)) = length buf"
proof (induction buf pos v rule: writeVarint32_loop.induct)
  case (1 buf pos val)
  then show ?case by (subst writeVarint32_loop.simps) simp
qed

lemma length_writeVarint32 [simp]: "length (writeVarint32 buf pos v) = length buf"
proof -
  obtain b1 p1 v1 where l: "writeVarint32_loop buf pos v = (b1, p1, v1)"
    by (cases "writeVarint32_loop buf pos v") auto
  have "length b1 = length buf" using length_writeVarint32_loop [of buf pos v] by (simp add: l)
  then show ?thesis by (simp add: writeVarint32_def l)
qed

lemma length_writeVarint64_loop1 [simp]:
  "length (fst (writeVarint64_loop1 buf pos b)) = length buf"
proof (induction buf pos b rule: writeVarint64_loop1.induct)
  case (1 buf pos val)
  then show ?case by (subst writeVarint64_loop1.simps) simp
qed

lemma length_writeVarint64_loop2 [simp]:
  "length (fst (writeVarint64_loop2 buf pos v)) = length buf"
proof (induction buf pos v rule: writeVarint64_loop2.induct)
  case (1 buf pos vlo)
  then show ?case by (subst writeVarint64_loop2.simps) simp
qed

lemma length_writeVarint64 [simp]: "length (writeVarint64 buf pos b) = length buf"
proof -
  obtain b1 p1 v1 where l1: "writeVarint64_loop1 buf pos b = (b1, p1, v1)"
    by (cases "writeVarint64_loop1 buf pos b") auto
  obtain b2 p2 v2 where l2: "writeVarint64_loop2 b1 p1 (lo v1) = (b2, p2, v2)"
    by (cases "writeVarint64_loop2 b1 p1 (lo v1)") auto
  have "length b1 = length buf" using length_writeVarint64_loop1 [of buf pos b] by (simp add: l1)
  moreover have "length b2 = length b1" using length_writeVarint64_loop2 [of b1 p1 "lo v1"] by (simp add: l2)
  ultimately show ?thesis by (simp add: writeVarint64_def writeVarint64_run_def l1 l2)
qed

lemma length_writeString [simp]: "length (writeString buf pos s) = length buf"
  using writeString_loop_frame [of buf pos s 0] by (simp add: frame_def writeString_def)

lemma length_call_fn [simp]: "length (call_fn f buf pos v) = length buf"
  by (cases f; cases v) (simp_all add: writeByte_def writeFixed32_def Let_def)

lemma length_walk [simp]: "length (walk h as buf pos) = length buf"
  by (induction as arbitrary: buf pos) simp_all

text \<open>
  C9: \<open>finish\<close> while the stack of states is not empty. The claim is that the buffer
  holds the operations of the outer frame, or the call fails, and that the buffer never
  holds only the operations of the current frame. After \<open>uint32(1); fork(); uint32(2)\<close>
  the stack is not empty and \<open>finish\<close> returns the buffer \<open>02\<close>: what \<open>uint32(2)\<close> alone
  gives on a new writer, and not the \<open>01\<close> of the outer frame; the outer operation stays
  queued in the writer, whose \<open>len\<close> is 1 afterwards.
\<close>
theorem finish_unbalanced_counterexample:
  "states (uint32 (fork (uint32 new_Writer 1)) 2) \<noteq> []
   \<and> map_option fst (finish (uint32 (fork (uint32 new_Writer 1)) 2)) = Some [2]
   \<and> map_option fst (finish (uint32 new_Writer 2)) = Some [2]
   \<and> map_option fst (finish (uint32 new_Writer 1)) = Some [1]
   \<and> map_option (len \<circ> snd) (finish (uint32 (fork (uint32 new_Writer 1)) 2)) = Some 1"
  by (simp add: writer_defs js_defs writeByte_def store_def)

subsection \<open>Linked lists in the store\<close>

lemma path_tail_next: "path h a as t \<Longrightarrow> op_next (h t) = None"
  by (induction as arbitrary: a) auto

lemma path_last: "path h a as t \<Longrightarrow> t = last (a # as)"
  by (induction as arbitrary: a) auto

lemma path_tail_mem: "path h a as t \<Longrightarrow> t \<in> set (a # as)"
  by (induction as arbitrary: a) auto

lemma path_chain: "path h a as t \<Longrightarrow> chain h (op_next (h a)) as"
  by (induction as arbitrary: a) auto

lemma path_upd_other:
  "x \<notin> set (a # as) \<Longrightarrow> path (h(x := y)) a as t = path h a as t"
  by (induction as arbitrary: a) auto

lemma path_splice:
  "path h a as t \<Longrightarrow> path h b bs t2 \<Longrightarrow> set (a # as) \<inter> set (b # bs) = {} \<Longrightarrow>
     path (h(t := (h t)\<lparr> op_next := Some b \<rparr>)) a (as @ b # bs) t2"
proof (induction as arbitrary: a)
  case Nil
  then have at: "a = t" by simp
  from Nil have "t \<notin> set (b # bs)" by auto
  then have "path (h(t := (h t)\<lparr> op_next := Some b \<rparr>)) b bs t2 = path h b bs t2"
    by (rule path_upd_other)
  then have 2: "path (h(t := (h t)\<lparr> op_next := Some b \<rparr>)) b bs t2" using Nil.prems(2) by simp
  have 1: "op_next ((h(t := (h t)\<lparr> op_next := Some b \<rparr>)) a) = Some b" by (simp add: at)
  show ?case using 1 2 by (simp del: fun_upd_apply)
next
  case (Cons c cs)
  from Cons.prems(1) have n: "op_next (h a) = Some c" and p: "path h c cs t" by simp_all
  have "a \<noteq> t" using path_tail_next [OF p] n by auto
  moreover have "path (h(t := (h t)\<lparr> op_next := Some b \<rparr>)) c (cs @ b # bs) t2"
    using Cons.prems by (intro Cons.IH [OF p]) auto
  ultimately show ?case using n by (simp del: fun_upd_apply) simp
qed

lemma next_upd_None:
  "op_next (h t) = None \<Longrightarrow> h(t := (h t)\<lparr> op_next := None \<rparr>) = h"
  by (rule ext) auto

lemma entry_of_next_upd [simp]:
  "entry_of (h(t := (h t)\<lparr> op_next := p \<rparr>)) a = entry_of h a"
  by (simp add: entry_of_def)

lemma map_entry_next_upd:
  "map (entry_of (h(t := (h t)\<lparr> op_next := p \<rparr>))) as = map (entry_of h) as"
  by (rule map_cong [OF refl]) (rule entry_of_next_upd)

lemma map_entry_upd_other:
  "x \<notin> set as \<Longrightarrow> map (entry_of (h(x := y))) as = map (entry_of h) as"
  by (intro map_cong) (auto simp: entry_of_def)

lemma absframe_next_upd [simp]:
  "absframe (h(t := (h t)\<lparr> op_next := p \<rparr>)) fr = absframe h fr"
  by (simp only: absframe_def map_entry_next_upd)

lemma absframe_upd_other:
  "x \<notin> set (frame_addrs fr) \<Longrightarrow> absframe (h(x := y)) fr = absframe h fr"
  by (simp add: absframe_def frame_addrs_def map_entry_upd_other)

lemma frame_ok_upd_other:
  assumes "x \<notin> set (frame_addrs fr)"
  shows "frame_ok (h(x := y)) fr = frame_ok h fr"
proof -
  obtain s as ds where fr: "fr = (s, as, ds)" by (cases fr) auto
  from assms have x: "x \<notin> set (st_head s # as)" "x \<notin> set ds"
    by (simp_all add: frame_addrs_def fr)
  have p: "path (h(x := y)) (st_head s) as (last (st_head s # as))
      = path h (st_head s) as (last (st_head s # as))"
    by (rule path_upd_other [OF x(1)])
  have q: "ds \<noteq> [] \<Longrightarrow> path (h(x := y)) (hd ds) (tl ds) (st_tail s)
      = path h (hd ds) (tl ds) (st_tail s)"
    using x(2) by (intro path_upd_other) (cases ds, auto)
  show ?thesis
    unfolding frame_ok_def fr Let_def fst_conv snd_conv p using q by auto
qed

lemma list_all_frame_ok_upd_other:
  "x \<notin> set (concat (map frame_addrs frs)) \<Longrightarrow>
     list_all (frame_ok (h(x := y))) frs = list_all (frame_ok h) frs"
  by (induction frs) (simp_all add: frame_ok_upd_other)

lemma content_upd_other:
  "x \<notin> set (concat (map frame_addrs frs)) \<Longrightarrow> content (h(x := y)) frs = content h frs"
  by (induction frs) (simp_all add: content_def absframe_upd_other)

lemma content_next_upd [simp]:
  "content (h(t := (h t)\<lparr> op_next := p \<rparr>)) frs = content h frs"
  unfolding content_def by (rule map_cong [OF refl]) (rule absframe_next_upd)

lemma content_simps [simp]:
  "content h [] = []"
  "content h (fr # frs) = absframe h fr # content h frs"
  by (simp_all add: content_def)

subsection \<open>Frames under fork, push and splice\<close>

lemma frames_ok_tl: "frames_ok h n (fr # frs) \<Longrightarrow> frames_ok h n frs"
  by (simp add: frames_ok_def)

lemma frames_ok_swap: "frames_ok h n (f1 # f2 # frs) \<Longrightarrow> frames_ok h n (f2 # f1 # frs)"
  by (auto simp: frames_ok_def)

lemma frames_ok_drop2: "frames_ok h n (f1 # f2 # frs) \<Longrightarrow> frames_ok h n (f1 # frs)"
  by (auto simp: frames_ok_def)

lemma frames_ok_fork:
  assumes "frames_ok h n frs"
  shows "frames_ok (h(n := new_Op Fn_noop (VNum 0) 0)) (Suc n)
           ((\<lparr> st_head = n, st_tail = n, st_len = 0 \<rparr>, [], []) # frs)"
    and "content (h(n := new_Op Fn_noop (VNum 0) 0))
           ((\<lparr> st_head = n, st_tail = n, st_len = 0 \<rparr>, [], []) # frs)
         = ([], True, 0) # content h frs"
proof -
  from assms have lt: "list_all (\<lambda>a. a < n) (concat (map frame_addrs frs))"
    and d: "distinct (concat (map frame_addrs frs))" and ok: "list_all (frame_ok h) frs"
    by (simp_all add: frames_ok_def)
  from lt have nin: "n \<notin> set (concat (map frame_addrs frs))"
    by (auto simp: list_all_iff)
  have lt': "list_all (\<lambda>a. a < Suc n) (concat (map frame_addrs frs))"
    using lt by (auto simp: list_all_iff less_Suc_eq)
  have "frame_ok (h(n := new_Op Fn_noop (VNum 0) 0))
      (\<lparr> st_head = n, st_tail = n, st_len = 0 \<rparr>, [], [])"
    by (simp add: frame_ok_def new_Op_def)
  then show "frames_ok (h(n := new_Op Fn_noop (VNum 0) 0)) (Suc n)
           ((\<lparr> st_head = n, st_tail = n, st_len = 0 \<rparr>, [], []) # frs)"
    using nin d ok lt'
    by (simp add: frames_ok_def list_all_frame_ok_upd_other frame_addrs_def)
  show "content (h(n := new_Op Fn_noop (VNum 0) 0))
           ((\<lparr> st_head = n, st_tail = n, st_len = 0 \<rparr>, [], []) # frs)
         = ([], True, 0) # content h frs"
    using content_upd_other [OF nin] by (simp add: absframe_def)
qed

lemma frames_ok_push:
  fixes f :: emit_fn and v :: js_val and l :: nat
  assumes "frames_ok h n ((s, as, ds) # frs)"
  defines "h1 \<equiv> h(n := new_Op f v l)"
  defines "h2 \<equiv> h1(st_tail s := (h1 (st_tail s))\<lparr> op_next := Some n \<rparr>)"
  defines "s' \<equiv> \<lparr> st_head = st_head s, st_tail = n, st_len = st_len s + l \<rparr>"
  defines "as' \<equiv> (if ds = [] then as @ [n] else as)"
  defines "ds' \<equiv> (if ds = [] then [] else ds @ [n])"
  shows "frames_ok h2 (Suc n) ((s', as', ds') # frs)"
    and "content h2 ((s', as', ds') # frs) = apush (absframe h (s, as, ds)) [(f, l, v)] # content h frs"
proof -
  define rest where "rest = concat (map frame_addrs frs)"
  from assms(1) have p: "path h (st_head s) as (last (st_head s # as))"
    and pt: "if ds = [] then st_tail s = last (st_head s # as)
             else path h (hd ds) (tl ds) (st_tail s)"
    and ok: "list_all (frame_ok h) frs"
    and d: "distinct ((st_head s # as @ ds) @ rest)"
    and lt: "list_all (\<lambda>a. a < n) ((st_head s # as @ ds) @ rest)"
    by (simp_all add: frames_ok_def frame_ok_def frame_addrs_def rest_def Let_def)
  from lt have n1: "n \<notin> set (st_head s # as)" and n2: "n \<notin> set rest" and n3: "n \<notin> set ds"
    by (auto simp: list_all_iff)
  have tm: "st_tail s \<in> set (st_head s # as @ ds)"
  proof (cases "ds = []")
    case True
    with pt have "st_tail s = last (st_head s # as)" by simp
    moreover have "last (st_head s # as) \<in> set (st_head s # as)" by (rule last_in_set) simp
    ultimately show ?thesis by auto
  next
    case False
    with pt have "path h (hd ds) (tl ds) (st_tail s)" by simp
    from path_tail_mem [OF this] False show ?thesis by (cases ds) auto
  qed
  then have t2: "st_tail s \<notin> set rest" using d by auto
  have p1: "path h1 (st_head s) as (last (st_head s # as))"
    unfolding h1_def using p path_upd_other [OF n1] by simp
  have pn: "path h1 n [] n" by (simp add: h1_def new_Op_def)
  have "list_all (frame_ok h2) frs = list_all (frame_ok h1) frs"
    unfolding h2_def using t2 by (intro list_all_frame_ok_upd_other) (simp add: rest_def)
  also have "\<dots> = list_all (frame_ok h) frs"
    unfolding h1_def using n2 by (intro list_all_frame_ok_upd_other) (simp add: rest_def)
  finally have ok2: "list_all (frame_ok h2) frs" using ok by simp
  have d2: "distinct ((st_head s # as' @ ds') @ rest)"
    using d n1 n2 n3 by (auto simp: as'_def ds'_def)
  have lt2: "list_all (\<lambda>a. a < Suc n) ((st_head s # as' @ ds') @ rest)"
    using lt by (auto simp: list_all_iff less_Suc_eq as'_def ds'_def)
  have "content h2 frs = content h1 frs" unfolding h2_def by (rule content_next_upd)
  also have "\<dots> = content h frs"
    unfolding h1_def using n2 by (intro content_upd_other) (simp add: rest_def)
  finally have c2: "content h2 frs = content h frs" .
  have e1: "map (entry_of h1) as = map (entry_of h) as"
    unfolding h1_def using n1 by (intro map_entry_upd_other) simp
  have en: "entry_of h1 n = (f, l, v)" by (simp add: h1_def entry_of_def new_Op_def)
  have e2: "map (entry_of h2) xs = map (entry_of h1) xs" for xs
    unfolding h2_def by (rule map_entry_next_upd)
  have f2: "frame_ok h2 (s', as', ds')"
    and a2: "absframe h2 (s', as', ds') = apush (absframe h (s, as, ds)) [(f, l, v)]"
  proof -
    show "frame_ok h2 (s', as', ds')"
    proof (cases "ds = []")
      case True
      with pt have t: "st_tail s = last (st_head s # as)" by simp
      have "set (st_head s # as) \<inter> set [n] = {}" using n1 by simp
      then have "path h2 (st_head s) (as @ [n]) n"
        unfolding h2_def t by (rule path_splice [OF p1 pn])
      then show ?thesis using True by (simp add: frame_ok_def s'_def as'_def ds'_def)
    next
      case False
      then obtain e es where ds: "ds = e # es" by (cases ds) auto
      with pt have pd: "path h e es (st_tail s)" by simp
      have "n \<notin> set (e # es)" using n3 ds by simp
      then have pd1: "path h1 e es (st_tail s)"
        unfolding h1_def using pd path_upd_other by simp
      have "set (e # es) \<inter> set [n] = {}" using n3 ds by simp
      then have pd2: "path h2 e (es @ [n]) n"
        unfolding h2_def by (rule path_splice [OF pd1 pn])
      have "st_tail s \<in> set ds" using path_tail_mem [OF pd] ds by simp
      then have "st_tail s \<notin> set (st_head s # as)" using d by auto
      then have "path h2 (st_head s) as (last (st_head s # as))
          = path h1 (st_head s) as (last (st_head s # as))"
        unfolding h2_def by (rule path_upd_other)
      then have "path h2 (st_head s) as (last (st_head s # as))" using p1 by simp
      then show ?thesis using pd2 ds
        by (simp add: frame_ok_def s'_def as'_def ds'_def del: last.simps)
    qed
    show "absframe h2 (s', as', ds') = apush (absframe h (s, as, ds)) [(f, l, v)]"
      by (simp add: absframe_def apush_def s'_def as'_def ds'_def e2 e1 en entries_len_def)
  qed
  show "frames_ok h2 (Suc n) ((s', as', ds') # frs)"
    using f2 ok2 d2 lt2 by (simp add: frames_ok_def frame_addrs_def rest_def s'_def)
  show "content h2 ((s', as', ds') # frs)
      = apush (absframe h (s, as, ds)) [(f, l, v)] # content h frs"
    using a2 c2 by simp
qed

lemma last_append_Cons: "last (a # as @ b # bs) = last (c # b # bs)"
  by simp

lemma frames_ok_splice:
  assumes "frames_ok h n ((s, as, ds) # (d, bs, es) # frs)"
  defines "h' \<equiv> h(st_tail s := (h (st_tail s))\<lparr> op_next := op_next (h (st_head d)) \<rparr>)"
  defines "s' \<equiv> \<lparr> st_head = st_head s, st_tail = st_tail d, st_len = st_len s + st_len d \<rparr>"
  defines "as' \<equiv> (if ds = [] then as @ bs else as)"
  defines "ds' \<equiv> (if es \<noteq> [] then es else if ds = [] \<and> bs \<noteq> [] then [] else st_head d # bs)"
  shows "frames_ok h' n ((s', as', ds') # frs)"
    and "content h' ((s', as', ds') # frs)
           = asplice (absframe h (s, as, ds)) (absframe h (d, bs, es)) # content h frs"
proof -
  define rest where "rest = concat (map frame_addrs frs)"
  define t where "t = st_tail s"
  from assms(1) have p: "path h (st_head s) as (last (st_head s # as))"
    and pt: "if ds = [] then t = last (st_head s # as) else path h (hd ds) (tl ds) t"
    and q: "path h (st_head d) bs (last (st_head d # bs))"
    and qt: "if es = [] then st_tail d = last (st_head d # bs)
             else path h (hd es) (tl es) (st_tail d)"
    and ok: "list_all (frame_ok h) frs"
    and d: "distinct ((st_head s # as @ ds) @ (st_head d # bs @ es) @ rest)"
    and lt: "list_all (\<lambda>a. a < n) ((st_head s # as @ ds) @ (st_head d # bs @ es) @ rest)"
    by (simp_all add: frames_ok_def frame_ok_def frame_addrs_def rest_def Let_def t_def)
  have h': "h' = h(t := (h t)\<lparr> op_next := op_next (h (st_head d)) \<rparr>)"
    by (simp add: h'_def t_def)
  have tm: "if ds = [] then t \<in> set (st_head s # as) else t \<in> set ds"
  proof (cases "ds = []")
    case True
    with pt have "t = last (st_head s # as)" by simp
    moreover have "last (st_head s # as) \<in> set (st_head s # as)" by (rule last_in_set) simp
    ultimately show ?thesis using True by auto
  next
    case False
    with pt have "path h (hd ds) (tl ds) t" by simp
    from path_tail_mem [OF this] False show ?thesis by (cases ds) auto
  qed
  then have t1: "t \<notin> set (st_head d # bs @ es)" and t2: "t \<notin> set rest"
    using d by (auto split: if_splits)
  have "list_all (frame_ok h') frs = list_all (frame_ok h) frs"
    unfolding h' using t2 by (intro list_all_frame_ok_upd_other) (simp add: rest_def)
  then have ok2: "list_all (frame_ok h') frs" using ok by simp
  have c2: "content h' frs = content h frs" unfolding h' by (rule content_next_upd)
  have e2: "map (entry_of h') xs = map (entry_of h) xs" for xs
    unfolding h' by (rule map_entry_next_upd)
  have a2: "absframe h' (s', as', ds') = asplice (absframe h (s, as, ds)) (absframe h (d, bs, es))"
    by (simp add: absframe_def asplice_def s'_def as'_def ds'_def e2)
  have d2: "distinct ((st_head s # as' @ ds') @ rest)"
    using d by (auto simp: as'_def ds'_def)
  have lt2: "list_all (\<lambda>a. a < n) ((st_head s # as' @ ds') @ rest)"
    using lt by (auto simp: list_all_iff as'_def ds'_def)
  have tail: "if ds' = [] then st_tail d = last (st_head s # as')
              else path h' (hd ds') (tl ds') (st_tail d)"
  proof (cases "es = []")
    case False
    then obtain e es' where es: "es = e # es'" by (cases es) auto
    with qt have "path h e es' (st_tail d)" by simp
    moreover have "t \<notin> set (e # es')" using t1 es by simp
    ultimately have "path h' e es' (st_tail d)"
      unfolding h' using path_upd_other by simp
    then show ?thesis using es by (simp add: ds'_def)
  next
    case True
    with qt have td: "st_tail d = last (st_head d # bs)" by simp
    show ?thesis
    proof (cases "ds = [] \<and> bs \<noteq> []")
      case True
      then obtain b bs' where bs: "bs = b # bs'" by (cases bs) auto
      have "last (st_head s # as @ b # bs') = last (st_head d # b # bs')"
        by (rule last_append_Cons)
      then show ?thesis using True \<open>es = []\<close> td bs
        by (simp add: ds'_def as'_def del: last.simps)
    next
      case False
      have "t \<notin> set (st_head d # bs)" using t1 by simp
      then have "path h' (st_head d) bs (st_tail d) = path h (st_head d) bs (st_tail d)"
        unfolding h' by (rule path_upd_other)
      then have "path h' (st_head d) bs (st_tail d)" using q td by simp
      moreover have "ds' = st_head d # bs" using False \<open>es = []\<close> by (auto simp: ds'_def)
      ultimately show ?thesis by simp
    qed
  qed
  have link: "path h' (st_head s) as' (last (st_head s # as'))"
  proof (cases "ds = []")
    case False
    with tm d have "t \<notin> set (st_head s # as)" by auto
    then have "path h' (st_head s) as (last (st_head s # as))
        = path h (st_head s) as (last (st_head s # as))"
      unfolding h' by (rule path_upd_other)
    then show ?thesis using p False by (simp add: as'_def del: last.simps)
  next
    case True
    with pt have t: "t = last (st_head s # as)" by simp
    show ?thesis
    proof (cases bs)
      case Nil
      with q have "op_next (h (st_head d)) = None" by simp
      moreover have "op_next (h t) = None" unfolding t by (rule path_tail_next [OF p])
      ultimately have "h' = h" unfolding h' by (simp add: next_upd_None)
      then show ?thesis using p True Nil by (simp add: as'_def del: last.simps)
    next
      case (Cons b bs')
      with q have nx: "op_next (h (st_head d)) = Some b"
        and pb: "path h b bs' (last (st_head d # b # bs'))" by simp_all
      have dj: "set (st_head s # as) \<inter> set (b # bs') = {}" using d Cons by auto
      have "path h' (st_head s) (as @ b # bs') (last (st_head d # b # bs'))"
        unfolding h' nx t by (rule path_splice [OF p pb dj])
      moreover have "last (st_head s # as @ b # bs') = last (st_head d # b # bs')"
        by (rule last_append_Cons)
      ultimately show ?thesis using True Cons by (simp add: as'_def del: last.simps)
    qed
  qed
  have f2: "frame_ok h' (s', as', ds')"
    using link tail by (simp add: frame_ok_def s'_def del: last.simps)
  show "frames_ok h' n ((s', as', ds') # frs)"
    using f2 ok2 d2 lt2 by (simp add: frames_ok_def frame_addrs_def rest_def s'_def)
  show "content h' ((s', as', ds') # frs)
      = asplice (absframe h (s, as, ds)) (absframe h (d, bs, es)) # content h frs"
    using a2 c2 by simp
qed

subsection \<open>The operations of a writer follow the description of the frames\<close>

lemma uint32_push_entry: "uint32 w v = push_entry w (uint32_entry v)"
  by (simp add: uint32_def uint32_entry_def push_entry_def Let_def)

lemma tag_push_entry: "tag w fid wt = push_entry w (tag_entry fid wt)"
  by (simp add: tag_def tag_entry_def push_entry_def)

lemma scalar_do_call:
  "is_scalar c \<Longrightarrow> do_call w c = foldl push_entry w (entries_of c)"
  by (cases c)
     (simp_all add: uint32_push_entry tag_push_entry int32_def sint32_def uint64_def int64_def
        sint64_def bool_def fixed32_def sfixed32_def fixed64_def sfixed64_def string_def Let_def
        push_entry_def)

lemma ldelim_splice:
  "ldelim w fid = splice (foldl push_entry (reset w) (ldelim_entries fid (len w))) (cur_state w)"
  by (cases fid)
     (simp_all add: ldelim_def splice_def Let_def uint32_push_entry tag_push_entry cur_state_def
        ldelim_entries_def)

lemma apush_Nil [simp]: "apush x [] = x"
  by (simp add: apush_def entries_len_def)

lemma apush_apush: "apush (apush x es1) es2 = apush x (es1 @ es2)"
  by (simp add: apush_def entries_len_def)

lemma wcontent_Cons:
  "wcontent w a ex = absframe (heap w) (cur_state w, a) # content (heap w) ex"
  by (simp add: wcontent_def)

lemma winv_push_entry:
  assumes "winv w a ex"
  shows "\<exists>a'. winv (push_entry w e) a' ex
       \<and> wcontent (push_entry w e) a' ex
           = apush (absframe (heap w) (cur_state w, a)) [e] # content (heap w) ex
       \<and> states (push_entry w e) = states w"
proof -
  obtain as ds where a: "a = (as, ds)" by (cases a) auto
  obtain f l v where e: "e = (f, l, v)" by (cases e) auto
  note fp = frames_ok_push [OF assms [unfolded winv_def a], of f v l]
  define a' where "a' = (if ds = [] then as @ [fresh w] else as, if ds = [] then [] else ds @ [fresh w])"
  have cs: "cur_state (push_entry w e)
      = \<lparr> st_head = st_head (cur_state w), st_tail = fresh w, st_len = st_len (cur_state w) + l \<rparr>"
    by (simp add: cur_state_def push_entry_def e push_def Let_def)
  have hp: "heap (push_entry w e)
      = ((heap w)(fresh w := new_Op f v l))
          (st_tail (cur_state w) := (((heap w)(fresh w := new_Op f v l)) (st_tail (cur_state w)))
              \<lparr> op_next := Some (fresh w) \<rparr>)"
    by (simp add: cur_state_def push_entry_def e push_def Let_def)
  have fr: "fresh (push_entry w e) = Suc (fresh w)"
    by (simp add: push_entry_def e push_def Let_def)
  have "winv (push_entry w e) a' ex"
    unfolding winv_def cs hp fr a'_def by (rule fp(1))
  moreover have "wcontent (push_entry w e) a' ex
           = apush (absframe (heap w) (cur_state w, a)) [e] # content (heap w) ex"
    unfolding wcontent_def cs hp a'_def a unfolding e by (rule fp(2))
  moreover have "states (push_entry w e) = states w"
    by (simp add: push_entry_def push_def Let_def)
  ultimately show ?thesis by blast
qed

lemma winv_push_entries:
  "winv w a ex \<Longrightarrow>
     \<exists>a'. winv (foldl push_entry w es) a' ex
       \<and> wcontent (foldl push_entry w es) a' ex
           = apush (absframe (heap w) (cur_state w, a)) es # content (heap w) ex
       \<and> states (foldl push_entry w es) = states w"
proof (induction es arbitrary: w a)
  case Nil
  then show ?case by (intro exI [of _ a]) (simp add: wcontent_Cons)
next
  case (Cons e es)
  from winv_push_entry [OF Cons.prems, of e] obtain a1 where
    p: "winv (push_entry w e) a1 ex"
       "wcontent (push_entry w e) a1 ex
           = apush (absframe (heap w) (cur_state w, a)) [e] # content (heap w) ex"
       "states (push_entry w e) = states w"
    by blast
  from p(2) have m: "absframe (heap (push_entry w e)) (cur_state (push_entry w e), a1)
        = apush (absframe (heap w) (cur_state w, a)) [e]"
    and c: "content (heap (push_entry w e)) ex = content (heap w) ex"
    by (simp_all add: wcontent_Cons)
  from Cons.IH [OF p(1)] obtain a' where
    "winv (foldl push_entry (push_entry w e) es) a' ex"
    "wcontent (foldl push_entry (push_entry w e) es) a' ex
       = apush (absframe (heap (push_entry w e)) (cur_state (push_entry w e), a1)) es
         # content (heap (push_entry w e)) ex"
    "states (foldl push_entry (push_entry w e) es) = states (push_entry w e)"
    by blast
  then show ?case unfolding m c p(3) apush_apush by (intro exI [of _ a']) simp
qed

lemma winv_fork:
  assumes "winv w a ex"
  shows "winv (fork w) ([], []) ((cur_state w, a) # ex)"
    and "wcontent (fork w) ([], []) ((cur_state w, a) # ex) = ([], True, 0) # wcontent w a ex"
    and "states (fork w) = cur_state w # states w"
proof -
  note f = frames_ok_fork [OF assms [unfolded winv_def]]
  have cs: "cur_state (fork w) = \<lparr> st_head = fresh w, st_tail = fresh w, st_len = 0 \<rparr>"
    by (simp add: cur_state_def fork_def Let_def)
  have hp: "heap (fork w) = (heap w)(fresh w := new_Op Fn_noop (VNum 0) 0)"
    by (simp add: fork_def Let_def)
  have fr: "fresh (fork w) = Suc (fresh w)" by (simp add: fork_def Let_def)
  show "winv (fork w) ([], []) ((cur_state w, a) # ex)"
    unfolding winv_def cs hp fr by (rule f(1))
  show "wcontent (fork w) ([], []) ((cur_state w, a) # ex) = ([], True, 0) # wcontent w a ex"
    unfolding wcontent_def cs hp by (rule f(2))
  show "states (fork w) = cur_state w # states w"
    by (simp add: fork_def Let_def cur_state_def)
qed

lemma reset_pop:
  assumes "states w = s1 # ss"
  shows "cur_state (reset w) = s1" "heap (reset w) = heap w" "fresh (reset w) = fresh w"
    "states (reset w) = ss"
  using assms by (simp_all add: reset_def cur_state_def)

lemma winv_reset_pop:
  assumes "states w = s1 # ss" and "winv w a ((s1, a1) # ex)"
  shows "winv (reset w) a1 ((cur_state w, a) # ex)"
    and "winv (reset w) a1 ex"
proof -
  note r = reset_pop [OF assms(1)]
  from assms(2) have "frames_ok (heap w) (fresh w) ((s1, a1) # (cur_state w, a) # ex)"
    unfolding winv_def by (rule frames_ok_swap)
  then show "winv (reset w) a1 ((cur_state w, a) # ex)"
    by (simp add: winv_def r)
  then have "frames_ok (heap w) (fresh w) ((s1, a1) # (cur_state w, a) # ex)"
    by (simp add: winv_def r)
  then have "frames_ok (heap w) (fresh w) ((s1, a1) # ex)"
    by (rule frames_ok_drop2)
  then show "winv (reset w) a1 ex" by (simp add: winv_def r)
qed

lemma winv_reset_empty:
  assumes "states w = []" and "winv w a ex"
  shows "winv (reset w) ([], []) ((cur_state w, a) # ex)"
    and "winv (reset w) ([], []) ex"
    and "wcontent (reset w) ([], []) ((cur_state w, a) # ex) = ([], True, 0) # wcontent w a ex"
    and "states (reset w) = []"
proof -
  note f = frames_ok_fork [OF assms(2) [unfolded winv_def]]
  have cs: "cur_state (reset w) = \<lparr> st_head = fresh w, st_tail = fresh w, st_len = 0 \<rparr>"
    using assms(1) by (simp add: cur_state_def reset_def Let_def)
  have hp: "heap (reset w) = (heap w)(fresh w := new_Op Fn_noop (VNum 0) 0)"
    using assms(1) by (simp add: reset_def Let_def)
  have fr: "fresh (reset w) = Suc (fresh w)" using assms(1) by (simp add: reset_def Let_def)
  show 1: "winv (reset w) ([], []) ((cur_state w, a) # ex)"
    unfolding winv_def cs hp fr by (rule f(1))
  show "winv (reset w) ([], []) ex"
    using 1 unfolding winv_def by (rule frames_ok_drop2)
  show "wcontent (reset w) ([], []) ((cur_state w, a) # ex) = ([], True, 0) # wcontent w a ex"
    unfolding wcontent_def cs hp by (rule f(2))
  show "states (reset w) = []" using assms(1) by (simp add: reset_def Let_def)
qed

lemma winv_splice:
  assumes "winv w a ((d, b) # ex)"
  shows "\<exists>a'. winv (splice w d) a' ex
     \<and> wcontent (splice w d) a' ex
         = asplice (absframe (heap w) (cur_state w, a)) (absframe (heap w) (d, b))
           # content (heap w) ex
     \<and> states (splice w d) = states w"
proof -
  obtain as ds where a: "a = (as, ds)" by (cases a) auto
  obtain bs es where b: "b = (bs, es)" by (cases b) auto
  note f = frames_ok_splice [OF assms [unfolded winv_def a b]]
  define a' where "a' = (if ds = [] then as @ bs else as,
      if es \<noteq> [] then es else if ds = [] \<and> bs \<noteq> [] then [] else st_head d # bs)"
  have cs: "cur_state (splice w d)
      = \<lparr> st_head = st_head (cur_state w), st_tail = st_tail d,
          st_len = st_len (cur_state w) + st_len d \<rparr>"
    by (simp add: cur_state_def splice_def)
  have hp: "heap (splice w d)
      = (heap w)(st_tail (cur_state w) :=
           (heap w (st_tail (cur_state w)))\<lparr> op_next := op_next (heap w (st_head d)) \<rparr>)"
    by (simp add: splice_def cur_state_def)
  have fr: "fresh (splice w d) = fresh w" by (simp add: splice_def)
  have "winv (splice w d) a' ex"
    unfolding winv_def cs hp fr a'_def by (rule f(1))
  moreover have "wcontent (splice w d) a' ex
      = asplice (absframe (heap w) (cur_state w, a)) (absframe (heap w) (d, b))
        # content (heap w) ex"
    unfolding wcontent_def cs hp a'_def a b by (rule f(2))
  moreover have "states (splice w d) = states w" by (simp add: splice_def)
  ultimately show ?thesis by blast
qed

lemma queue_step_scalar:
  "is_scalar c \<Longrightarrow> queue_step (x # r) c = apush x (entries_of c) # r"
  by (cases c; cases r) simp_all

lemma inv_cases:
  assumes "inv w ads"
  obtains a rest where "ads = a # rest" "length rest = length (states w)"
    "winv w a (zip (states w) rest)"
  using assms by (cases ads) (auto simp: inv_def)

lemma inv_step_scalar:
  assumes "inv w ads" and "is_scalar c"
  shows "\<exists>ads'. inv (do_call w c) ads' \<and> absf (do_call w c) ads' = queue_step (absf w ads) c"
proof -
  from assms(1) obtain a rest where a: "ads = a # rest" "length rest = length (states w)"
    "winv w a (zip (states w) rest)"
    by (rule inv_cases)
  from winv_push_entries [OF a(3), of "entries_of c"] obtain a' where
    p: "winv (foldl push_entry w (entries_of c)) a' (zip (states w) rest)"
       "wcontent (foldl push_entry w (entries_of c)) a' (zip (states w) rest)
           = apush (absframe (heap w) (cur_state w, a)) (entries_of c)
             # content (heap w) (zip (states w) rest)"
       "states (foldl push_entry w (entries_of c)) = states w"
    by blast
  have d: "do_call w c = foldl push_entry w (entries_of c)"
    by (rule scalar_do_call [OF assms(2)])
  have "inv (do_call w c) (a' # rest)"
    unfolding d inv_def using p(1) p(3) a(2) by simp
  moreover have "absf (do_call w c) (a' # rest) = queue_step (absf w ads) c"
    unfolding d absf_def a(1) using p(2) p(3)
    by (simp add: wcontent_Cons queue_step_scalar [OF assms(2)])
  ultimately show ?thesis by blast
qed

lemma inv_step_fork:
  assumes "inv w ads"
  shows "\<exists>ads'. inv (fork w) ads' \<and> absf (fork w) ads' = queue_step (absf w ads) Fork"
proof -
  from assms(1) obtain a rest where a: "ads = a # rest" "length rest = length (states w)"
    "winv w a (zip (states w) rest)"
    by (rule inv_cases)
  note f = winv_fork [OF a(3)]
  have "inv (fork w) (([], []) # a # rest)"
    unfolding inv_def using f(1) f(3) a(2) by simp
  moreover have "absf (fork w) (([], []) # a # rest) = queue_step (absf w ads) Fork"
    unfolding absf_def a(1) using f(2) f(3) by (simp add: wcontent_Cons)
  ultimately show ?thesis by blast
qed

lemma inv_step_reset:
  assumes "inv w ads"
  shows "\<exists>ads'. inv (reset w) ads' \<and> absf (reset w) ads' = queue_step (absf w ads) Reset"
proof -
  from assms(1) obtain a rest where a: "ads = a # rest" "length rest = length (states w)"
    "winv w a (zip (states w) rest)"
    by (rule inv_cases)
  show ?thesis
  proof (cases "states w")
    case Nil
    with a have r: "rest = []" and w: "winv w a []" by simp_all
    note e = winv_reset_empty [OF Nil w]
    have "inv (reset w) [([], [])]" unfolding inv_def using e(2) e(4) by simp
    moreover have "absf (reset w) [([], [])] = queue_step (absf w ads) Reset"
      unfolding absf_def a(1) r using e(3) e(4) Nil by (simp add: wcontent_Cons)
    ultimately show ?thesis by blast
  next
    case (Cons s1 ss)
    with a(2) obtain a1 rest' where r: "rest = a1 # rest'" "length rest' = length ss"
      by (cases rest) auto
    from a(3) have w: "winv w a ((s1, a1) # zip ss rest')" by (simp add: Cons r)
    note p = winv_reset_pop [OF Cons w] and q = reset_pop [OF Cons]
    have "inv (reset w) (a1 # rest')"
      unfolding inv_def using p(2) q(4) r(2) by simp
    moreover have "absf (reset w) (a1 # rest') = queue_step (absf w ads) Reset"
      unfolding absf_def a(1) r by (simp add: wcontent_Cons q Cons)
    ultimately show ?thesis by blast
  qed
qed

lemma winv_ldelim_tail:
  assumes "winv w1 a1 ((d, a) # ex)"
  shows "\<exists>a4. winv (splice (foldl push_entry w1 es) d) a4 ex
     \<and> wcontent (splice (foldl push_entry w1 es) d) a4 ex
         = asplice (apush (absframe (heap w1) (cur_state w1, a1)) es) (absframe (heap w1) (d, a))
           # content (heap w1) ex
     \<and> states (splice (foldl push_entry w1 es) d) = states w1"
proof -
  define w3 where "w3 = foldl push_entry w1 es"
  from winv_push_entries [OF assms, of es] obtain a3 where
    p3: "winv w3 a3 ((d, a) # ex)"
        "wcontent w3 a3 ((d, a) # ex)
           = apush (absframe (heap w1) (cur_state w1, a1)) es # content (heap w1) ((d, a) # ex)"
        "states w3 = states w1"
    unfolding w3_def by blast
  from p3(2) have c3:
    "absframe (heap w3) (cur_state w3, a3) = apush (absframe (heap w1) (cur_state w1, a1)) es"
    "absframe (heap w3) (d, a) = absframe (heap w1) (d, a)"
    "content (heap w3) ex = content (heap w1) ex"
    by (simp_all add: wcontent_Cons)
  from winv_splice [OF p3(1)] obtain a4 where
    s: "winv (splice w3 d) a4 ex"
    "wcontent (splice w3 d) a4 ex
         = asplice (absframe (heap w3) (cur_state w3, a3)) (absframe (heap w3) (d, a))
           # content (heap w3) ex"
    "states (splice w3 d) = states w3"
    by blast
  note s' = s(1) s(2) [unfolded c3] s(3) [unfolded p3(3)]
  from s' show ?thesis unfolding w3_def by blast
qed

lemma inv_step_ldelim:
  assumes "inv w ads"
  shows "\<exists>ads'. inv (ldelim w fid) ads'
           \<and> absf (ldelim w fid) ads' = queue_step (absf w ads) (Ldelim fid)"
proof -
  from assms(1) obtain a rest where a: "ads = a # rest" "length rest = length (states w)"
    "winv w a (zip (states w) rest)"
    by (rule inv_cases)
  define es where "es = ldelim_entries fid (len w)"
  have l: "ldelim w fid = splice (foldl push_entry (reset w) es) (cur_state w)"
    unfolding es_def by (rule ldelim_splice)
  have ln: "snd (snd (absframe (heap w) (cur_state w, a))) = len w"
    by (simp add: absframe_def cur_state_def)
  show ?thesis
  proof (cases "states w")
    case Nil
    with a have r: "rest = []" and w: "winv w a []" by simp_all
    note e = winv_reset_empty [OF Nil w]
    from winv_ldelim_tail [OF e(1), of es] obtain a4 where
      t: "winv (ldelim w fid) a4 []"
         "wcontent (ldelim w fid) a4 []
            = asplice (apush (absframe (heap (reset w)) (cur_state (reset w), [], [])) es)
                (absframe (heap (reset w)) (cur_state w, a)) # content (heap (reset w)) []"
         "states (ldelim w fid) = states (reset w)"
      unfolding l by blast
    from e(3) have c: "absframe (heap (reset w)) (cur_state (reset w), [], []) = ([], True, 0)"
      "absframe (heap (reset w)) (cur_state w, a) = absframe (heap w) (cur_state w, a)"
      by (simp_all add: wcontent_Cons)
    have "inv (ldelim w fid) [a4]"
      unfolding inv_def using t(1) t(3) e(4) by simp
    moreover have "absf (ldelim w fid) [a4] = queue_step (absf w ads) (Ldelim fid)"
      unfolding absf_def a(1) r using t(2) t(3) e(4) Nil
      by (simp add: c wcontent_Cons ln es_def)
    ultimately show ?thesis by blast
  next
    case (Cons s1 ss)
    with a(2) obtain a1 rest' where r: "rest = a1 # rest'" "length rest' = length ss"
      by (cases rest) auto
    from a(3) have w: "winv w a ((s1, a1) # zip ss rest')" by (simp add: Cons r)
    note p = winv_reset_pop [OF Cons w] and q = reset_pop [OF Cons]
    from winv_ldelim_tail [OF p(1), of es] obtain a4 where
      t: "winv (ldelim w fid) a4 (zip ss rest')"
         "wcontent (ldelim w fid) a4 (zip ss rest')
            = asplice (apush (absframe (heap (reset w)) (cur_state (reset w), a1)) es)
                (absframe (heap (reset w)) (cur_state w, a))
              # content (heap (reset w)) (zip ss rest')"
         "states (ldelim w fid) = states (reset w)"
      unfolding l by blast
    have "inv (ldelim w fid) (a4 # rest')"
      unfolding inv_def using t(1) t(3) q(4) r(2) by simp
    moreover have "absf (ldelim w fid) (a4 # rest') = queue_step (absf w ads) (Ldelim fid)"
      unfolding absf_def a(1) r using t(2) t(3) q(4) Cons
      by (simp add: q wcontent_Cons ln es_def)
    ultimately show ?thesis by blast
  qed
qed

lemma inv_step:
  assumes "inv w ads"
  shows "\<exists>ads'. inv (do_call w c) ads' \<and> absf (do_call w c) ads' = queue_step (absf w ads) c"
proof (cases "is_scalar c")
  case True
  then show ?thesis by (rule inv_step_scalar [OF assms(1)])
next
  case False
  then consider "c = Fork" | "c = Reset" | fid where "c = Ldelim fid"
    by (cases c) simp_all
  then show ?thesis
  proof cases
    case 1
    then show ?thesis using inv_step_fork [OF assms(1)] by simp
  next
    case 2
    then show ?thesis using inv_step_reset [OF assms(1)] by simp
  next
    case 3
    then show ?thesis using inv_step_ldelim [OF assms(1)] by simp
  qed
qed

lemma inv_run:
  "inv w ads \<Longrightarrow>
     \<exists>ads'. inv (run w cs) ads' \<and> absf (run w cs) ads' = queue_run (absf w ads) cs"
proof (induction cs arbitrary: w ads)
  case Nil
  then show ?case by (auto simp: run_def queue_run_def)
next
  case (Cons c cs)
  from inv_step [OF Cons.prems(1), of c] obtain ads1 where
    s: "inv (do_call w c) ads1" "absf (do_call w c) ads1 = queue_step (absf w ads) c"
    by blast
  from Cons.IH [OF s(1)] obtain ads' where
    "inv (run (do_call w c) cs) ads'"
    "absf (run (do_call w c) cs) ads' = queue_run (absf (do_call w c) ads1) cs"
    by auto
  then show ?case unfolding s(2) by (auto simp: run_def queue_run_def)
qed

lemma inv_new_Writer: "inv new_Writer [([], [])]" "absf new_Writer [([], [])] = [([], True, 0)]"
  by (simp_all add: inv_def absf_def winv_def wcontent_def frames_ok_def frame_ok_def
      frame_addrs_def cur_state_def new_Writer_def new_Op_def absframe_def)

subsection \<open>Sequences of calls that close no empty frame\<close>

lemma frames_step_scalar:
  "is_scalar c \<Longrightarrow> frames_step (xs # r) c = (xs @ entries_of c) # r"
  by (cases c; cases r) simp_all

lemma entries_len_append [simp]: "entries_len (xs @ ys) = entries_len xs + entries_len ys"
  by (simp add: entries_len_def)

lemma entries_len_Nil [simp]: "entries_len [] = 0"
  by (simp add: entries_len_def)

lemma apush_whole: "apush (whole xs) es = whole (xs @ es)"
  by (simp add: apush_def whole_def)

lemma asplice_whole: "xs \<noteq> [] \<Longrightarrow> asplice (whole ys) (whole xs) = whole (ys @ xs)"
  by (simp add: asplice_def whole_def)

lemma whole_Nil: "([], True, 0) = whole []"
  by (simp add: whole_def)

lemma ok_step_whole:
  assumes "ok_call fs c"
  shows "queue_step (map whole fs) c = map whole (frames_step fs c)"
proof (cases fs)
  case Nil
  then show ?thesis by simp
next
  case (Cons xs r)
  show ?thesis
  proof (cases "is_scalar c")
    case True
    then show ?thesis
      by (simp add: Cons queue_step_scalar frames_step_scalar apush_whole)
  next
    case False
    then consider "c = Fork" | "c = Reset" | fid where "c = Ldelim fid"
      by (cases c) simp_all
    then show ?thesis
    proof cases
      case 1
      then show ?thesis by (simp add: Cons whole_Nil)
    next
      case 2
      then show ?thesis by (cases r) (simp_all add: Cons whole_Nil)
    next
      case 3
      with assms Cons obtain ys r' where r: "r = ys # r'" and ne: "xs \<noteq> []"
        by (cases r) auto
      have l: "snd (snd (whole xs)) = entries_len xs" by (simp add: whole_def)
      show ?thesis
        unfolding 3 Cons r
        by (simp add: l apush_whole asplice_whole [OF ne] ldelim_entries_def)
    qed
  qed
qed

lemma ok_run_whole:
  "ok_calls fs cs \<Longrightarrow> queue_run (map whole fs) cs = map whole (frames_run fs cs)"
proof (induction cs arbitrary: fs)
  case Nil
  then show ?case by (simp add: queue_run_def frames_run_def)
next
  case (Cons c cs)
  then have o: "ok_call fs c" "ok_calls (frames_step fs c) cs" by simp_all
  from Cons.IH [OF o(2)] ok_step_whole [OF o(1)] show ?case
    by (simp add: queue_run_def frames_run_def)
qed

subsection \<open>What finish returns\<close>

lemma walk_emit:
  "walk h as buf pos = emit_entries (map (entry_of h) as) buf pos"
  by (induction as arbitrary: buf pos) (simp_all add: entry_of_def)

lemma chain_upd_other:
  "x \<notin> set as \<Longrightarrow> chain (h(x := y)) p as = chain h p as"
  by (induction as arbitrary: p) auto

lemma walk_upd_other:
  "x \<notin> set as \<Longrightarrow> walk (h(x := y)) as buf pos = walk h as buf pos"
  by (induction as arbitrary: buf pos) auto

lemma length_emit_entries [simp]: "length (emit_entries es buf pos) = length buf"
  by (induction es arbitrary: buf pos) auto

lemma finish_winv:
  assumes "winv w a ex"
  shows "finish w
    = Some (emit_entries (fst (absframe (heap w) (cur_state w, a))) (new_ArrayImpl (len w)) 0,
            reset w)"
proof -
  obtain as ds where a: "a = (as, ds)" by (cases a) auto
  from assms have fo: "frame_ok (heap w) (cur_state w, as, ds)"
    and lt: "list_all (\<lambda>a. a < fresh w) as"
    by (simp_all add: winv_def frames_ok_def frame_addrs_def a)
  from fo have "path (heap w) (head w) as (last (head w # as))"
    by (simp add: frame_ok_def cur_state_def Let_def del: last.simps)
  then have c: "chain (heap w) (op_next (heap w (head w))) as" by (rule path_chain)
  from lt have n: "fresh w \<notin> set as" by (auto simp: list_all_iff)
  have "chain (heap (reset w)) (op_next (heap w (head w))) as"
    using c n by (cases "states w") (simp_all add: reset_def Let_def chain_upd_other)
  then have "finish_internal_loop (heap (reset w)) (op_next (heap w (head w)))
        (new_ArrayImpl (len w)) 0
      = Some (walk (heap (reset w)) as (new_ArrayImpl (len w)) 0)"
    by (rule finish_internal_loop_chain)
  moreover have "walk (heap (reset w)) as (new_ArrayImpl (len w)) 0
      = walk (heap w) as (new_ArrayImpl (len w)) 0"
    using n by (cases "states w") (simp_all add: reset_def Let_def walk_upd_other)
  ultimately show ?thesis
    by (simp add: finish_def Let_def finish_internal_def walk_emit absframe_def a)
qed

lemma run_queue:
  "\<exists>ads. inv (run new_Writer cs) ads
     \<and> absf (run new_Writer cs) ads = queue_run [([], True, 0)] cs"
  using inv_run [OF inv_new_Writer(1), of cs] by (simp add: inv_new_Writer(2))

text \<open>
  C9, as amended: take the writer that any sequence \<open>cs\<close> of calls builds from a new one
  (the calls are those of the type \<open>call\<close>: \<^verbatim>\<open>fork\<close>, \<^verbatim>\<open>reset\<close>, \<^verbatim>\<open>ldelim\<close> and every write but
  \<^verbatim>\<open>float\<close>, \<^verbatim>\<open>double\<close> and \<^verbatim>\<open>bytes\<close>), and let its stack of states be not empty, with the state
  \<open>s\<close> on top. Then \<open>finish\<close> does not fail. It returns a buffer of the current frame's
  \<open>len\<close> that holds exactly the operations linked from the head of the current frame,
  emitted in order from position 0, and it pops the top state: the writer is left with the
  head, tail and len of \<open>s\<close> and the rest of the stack. The operations of the outer frame are
  not in the buffer and are not lost: a second \<open>finish\<close> returns exactly the operations
  linked from the head of the outer frame, in a buffer of the \<open>len\<close> restored.

  If in \<open>cs\<close> every \<^verbatim>\<open>ldelim\<close> is inside a fork and closes a frame that holds an operation
  (\<open>ok_calls\<close>), the operations linked in a frame are all the operations of the frame: those
  written since the \<^verbatim>\<open>fork\<close> that opened it, every frame closed inside it by \<^verbatim>\<open>ldelim\<close> as
  tag, length and body; and \<open>len\<close> is the sum of their lengths. Then the first buffer is
  exactly the current frame and the second exactly the outer frame. After an \<^verbatim>\<open>ldelim\<close> on
  an empty frame, what is written later in the frame is counted in \<open>len\<close> but not linked,
  and \<open>finish\<close> does not emit it.
\<close>
theorem finish_in_fork:
  assumes "states (run new_Writer cs) = s # ss"
  shows "finish (run new_Writer cs)
        = Some (emit_entries (fr_ops (hd (queue_run [([], True, 0)] cs)))
                  (new_ArrayImpl (len (run new_Writer cs))) 0,
                (run new_Writer cs)
                  \<lparr> head := st_head s, tail := st_tail s, len := st_len s, states := ss \<rparr>)
     \<and> length (emit_entries (fr_ops (hd (queue_run [([], True, 0)] cs)))
                  (new_ArrayImpl (len (run new_Writer cs))) 0)
         = len (run new_Writer cs)
     \<and> map_option fst (finish ((run new_Writer cs)
                  \<lparr> head := st_head s, tail := st_tail s, len := st_len s, states := ss \<rparr>))
         = Some (emit_entries (fr_ops (hd (tl (queue_run [([], True, 0)] cs))))
                  (new_ArrayImpl (st_len s)) 0)
     \<and> length (queue_run [([], True, 0)] cs) = length ss + 2
     \<and> fr_len (hd (queue_run [([], True, 0)] cs)) = len (run new_Writer cs)
     \<and> fr_len (hd (tl (queue_run [([], True, 0)] cs))) = st_len s
     \<and> (ok_calls [[]] cs \<longrightarrow>
          queue_run [([], True, 0)] cs = map whole (frames_run [[]] cs)
          \<and> len (run new_Writer cs) = entries_len (hd (frames_run [[]] cs))
          \<and> st_len s = entries_len (hd (tl (frames_run [[]] cs)))
          \<and> finish (run new_Writer cs)
              = Some (emit_entries (hd (frames_run [[]] cs))
                        (new_ArrayImpl (entries_len (hd (frames_run [[]] cs)))) 0,
                      (run new_Writer cs)
                        \<lparr> head := st_head s, tail := st_tail s, len := st_len s, states := ss \<rparr>)
          \<and> map_option fst (finish ((run new_Writer cs)
                  \<lparr> head := st_head s, tail := st_tail s, len := st_len s, states := ss \<rparr>))
              = Some (emit_entries (hd (tl (frames_run [[]] cs)))
                        (new_ArrayImpl (entries_len (hd (tl (frames_run [[]] cs))))) 0))"
proof -
  define W where "W = run new_Writer cs"
  define Q where "Q = queue_run [([], True, 0)] cs"
  define F where "F = frames_run [[]] cs"
  define W' where "W' = W\<lparr> head := st_head s, tail := st_tail s, len := st_len s, states := ss \<rparr>"
  from run_queue [of cs] obtain ads where i: "inv W ads" and a: "absf W ads = Q"
    unfolding W_def Q_def by blast
  have st: "states W = s # ss" using assms by (simp add: W_def)
  from i obtain a0 rest where r: "ads = a0 # rest" "length rest = length (states W)"
    "winv W a0 (zip (states W) rest)"
    by (rule inv_cases)
  from r(2) st obtain a1 rest' where r': "rest = a1 # rest'" "length rest' = length ss"
    by (cases rest) auto
  from r(3) have w: "winv W a0 ((s, a1) # zip ss rest')" by (simp add: st r')
  have Q: "Q = absframe (heap W) (cur_state W, a0) # absframe (heap W) (s, a1)
      # content (heap W) (zip ss rest')"
    unfolding a [symmetric] by (simp add: absf_def r(1) st r' wcontent_Cons)
  have rs: "reset W = W'" by (simp add: reset_def st W'_def)
  note q = reset_pop [OF st]
  have w': "winv W' a1 (zip ss rest')"
    using winv_reset_pop(2) [OF st w] by (simp add: rs)
  have cw': "cur_state W' = s" "heap W' = heap W" "len W' = st_len s"
    by (simp_all add: W'_def cur_state_def)
  have 1: "finish W = Some (emit_entries (fst (hd Q)) (new_ArrayImpl (len W)) 0, W')"
    using finish_winv [OF w] by (simp add: Q rs)
  have 2: "length (emit_entries (fst (hd Q)) (new_ArrayImpl (len W)) 0) = len W"
    by (simp add: new_ArrayImpl_def)
  have 3: "map_option fst (finish W')
      = Some (emit_entries (fst (hd (tl Q))) (new_ArrayImpl (st_len s)) 0)"
    using finish_winv [OF w'] by (simp add: Q cw')
  have 4: "length Q = length ss + 2" by (simp add: Q content_def r'(2))
  have 5: "snd (snd (hd Q)) = len W" by (simp add: Q absframe_def cur_state_def)
  have 6: "snd (snd (hd (tl Q))) = st_len s" by (simp add: Q absframe_def)
  have 7: "Q = map whole F \<and> len W = entries_len (hd F) \<and> st_len s = entries_len (hd (tl F))
      \<and> finish W = Some (emit_entries (hd F) (new_ArrayImpl (entries_len (hd F))) 0, W')
      \<and> map_option fst (finish W')
          = Some (emit_entries (hd (tl F)) (new_ArrayImpl (entries_len (hd (tl F)))) 0)"
    if "ok_calls [[]] cs"
  proof -
    from ok_run_whole [OF that] have e: "Q = map whole F"
      by (simp add: Q_def F_def whole_def)
    with 4 obtain f0 f1 fr where F: "F = f0 # f1 # fr"
      by (cases F; cases "tl F") auto
    have h: "fst (hd Q) = f0" "snd (snd (hd Q)) = entries_len f0"
      "fst (hd (tl Q)) = f1" "snd (snd (hd (tl Q))) = entries_len f1"
      by (simp_all add: e F whole_def)
    have l: "len W = entries_len (hd F)" "st_len s = entries_len (hd (tl F))"
      using 5 6 h by (simp_all add: F)
    show ?thesis
      using e l 1 3 h by (simp add: F)
  qed
  from 1 2 3 4 5 6 7 show ?thesis
    unfolding W_def Q_def F_def W'_def fr_ops_def fr_len_def by blast
qed

theorem finish_in_fork_witness:
  "states (run new_Writer [Uint32 1, Fork, Fork, Uint32 5, Ldelim (Some 1), Uint32 2])
       = [\<lparr> st_head = 0, st_tail = 1, st_len = 1 \<rparr>]
   \<and> ok_calls [[]] [Uint32 1, Fork, Fork, Uint32 5, Ldelim (Some 1), Uint32 2]
   \<and> finish (run new_Writer [Uint32 1, Fork, Fork, Uint32 5, Ldelim (Some 1), Uint32 2])
       = Some ([10, 1, 5, 2],
           (run new_Writer [Uint32 1, Fork, Fork, Uint32 5, Ldelim (Some 1), Uint32 2])
             \<lparr> head := 0, tail := 1, len := 1, states := [] \<rparr>)
   \<and> map_option fst (finish
         ((run new_Writer [Uint32 1, Fork, Fork, Uint32 5, Ldelim (Some 1), Uint32 2])
             \<lparr> head := 0, tail := 1, len := 1, states := [] \<rparr>)) = Some [1]
   \<and> states (run new_Writer [Uint32 9, Fork, Fork, Ldelim (Some 1), Uint32 1])
       = [\<lparr> st_head = 0, st_tail = 1, st_len = 1 \<rparr>]
   \<and> \<not> ok_calls [[]] [Uint32 9, Fork, Fork, Ldelim (Some 1), Uint32 1]
   \<and> len (run new_Writer [Uint32 9, Fork, Fork, Ldelim (Some 1), Uint32 1]) = 3
   \<and> map_option fst (finish (run new_Writer [Uint32 9, Fork, Fork, Ldelim (Some 1), Uint32 1]))
       = Some [10, 0, 0]"
proof -
  define cs where "cs = [Uint32 1, Fork, Fork, Uint32 5, Ldelim (Some 1), Uint32 2]"
  define ds where "ds = [Uint32 9, Fork, Fork, Ldelim (Some 1), Uint32 1]"
  have sel: "st_head \<lparr> st_head = 0, st_tail = 1, st_len = 1 \<rparr> = 0"
    "st_tail \<lparr> st_head = 0, st_tail = 1, st_len = 1 \<rparr> = 1"
    "st_len \<lparr> st_head = 0, st_tail = 1, st_len = 1 \<rparr> = 1"
    by simp_all
  have fr: "frames_run [[]] cs
      = [[(Fn_writeByte, 1, VNum 10), (Fn_writeByte, 1, VNum 1), (Fn_writeByte, 1, VNum 5),
          (Fn_writeByte, 1, VNum 2)],
         [(Fn_writeByte, 1, VNum 1)]]"
    by (simp add: cs_def frames_run_def uint32_entry_def tag_entry_def entries_len_def js_defs)
  have o: "ok_calls [[]] cs"
    by (simp add: cs_def uint32_entry_def tag_entry_def entries_len_def js_defs)
  have s: "states (run new_Writer cs) = [\<lparr> st_head = 0, st_tail = 1, st_len = 1 \<rparr>]"
    by (simp add: cs_def run_def writer_defs js_defs)
  have e: "emit_entries (hd (frames_run [[]] cs))
             (new_ArrayImpl (entries_len (hd (frames_run [[]] cs)))) 0 = [10, 1, 5, 2]"
    "emit_entries (hd (tl (frames_run [[]] cs)))
             (new_ArrayImpl (entries_len (hd (tl (frames_run [[]] cs))))) 0 = [1]"
    unfolding fr
    by (simp_all add: entries_len_def new_ArrayImpl_def writeByte_def store_def js_and_255)
  note t = finish_in_fork [OF s, unfolded sel]
  from t o have
    "finish (run new_Writer cs)
       = Some (emit_entries (hd (frames_run [[]] cs))
                 (new_ArrayImpl (entries_len (hd (frames_run [[]] cs)))) 0,
               (run new_Writer cs)\<lparr> head := 0, tail := 1, len := 1, states := [] \<rparr>)"
    "map_option fst (finish ((run new_Writer cs)\<lparr> head := 0, tail := 1, len := 1, states := [] \<rparr>))
       = Some (emit_entries (hd (tl (frames_run [[]] cs)))
                 (new_ArrayImpl (entries_len (hd (tl (frames_run [[]] cs))))) 0)"
    by blast+
  then have 1:
    "finish (run new_Writer cs)
       = Some ([10, 1, 5, 2], (run new_Writer cs)\<lparr> head := 0, tail := 1, len := 1, states := [] \<rparr>)"
    "map_option fst (finish ((run new_Writer cs)\<lparr> head := 0, tail := 1, len := 1, states := [] \<rparr>))
       = Some [1]"
    unfolding e by simp_all
  have qr: "queue_run [([], True, 0)] ds
      = [([(Fn_writeByte, 1, VNum 10), (Fn_writeByte, 1, VNum 0)], False, 3),
         ([(Fn_writeByte, 1, VNum 9)], True, 1)]"
    by (simp add: ds_def queue_run_def uint32_entry_def tag_entry_def entries_len_def js_defs
        apush_def asplice_def ldelim_entries_def)
  have no: "\<not> ok_calls [[]] ds"
    by (simp add: ds_def uint32_entry_def tag_entry_def entries_len_def js_defs)
  have s2: "states (run new_Writer ds) = [\<lparr> st_head = 0, st_tail = 1, st_len = 1 \<rparr>]"
    by (simp add: ds_def run_def writer_defs js_defs)
  note u = finish_in_fork [OF s2, unfolded sel qr]
  from u have l2: "len (run new_Writer ds) = 3"
    by (simp add: fr_len_def)
  from u have "map_option fst (finish (run new_Writer ds))
      = Some (emit_entries [(Fn_writeByte, 1, VNum 10), (Fn_writeByte, 1, VNum 0)]
                (new_ArrayImpl 3) 0)"
    unfolding l2 by (simp add: fr_ops_def)
  then have 2: "map_option fst (finish (run new_Writer ds)) = Some [10, 0, 0]"
    by (simp add: new_ArrayImpl_def writeByte_def store_def js_and_255 eval_nat_numeral)
  from s o 1 s2 no l2 2 show ?thesis unfolding cs_def ds_def by blast
qed

section \<open>Varints of 32 bits\<close>

lemma js_and_127: "js_and v 127 = v mod 128"
proof -
  have "js_and v 127 = signed_take_bit 31 v AND mask 7"
    by (simp add: js_and_def ToInt32_signed_take_bit mask_eq_exp_minus_1)
  also have "\<dots> = take_bit 7 (signed_take_bit 31 v)" by (simp add: take_bit_eq_mask)
  also have "\<dots> = take_bit 7 v" by (simp add: take_bit_signed_take_bit)
  finally show ?thesis unfolding take_bit_eq_mod by simp
qed

lemma or_128: 
  assumes "0 \<le> x" "x < 128"
  shows "x OR 128 = x + (128::int)"
proof -
  have "take_bit 7 x = x" using assms by (simp add: take_bit_int_eq_self)
  moreover have "\<not> bit (take_bit 7 x) 7" by (simp add: bit_take_bit_iff)
  ultimately have "\<not> bit x 7" by simp
  then have "x AND 128 = 0" using and_exp_eq_0_iff_not_bit [of x 7] by simp
  then have "x + 128 = x OR 128" by (rule disjunctive_add_eq_or)
  then show ?thesis by simp
qed

lemma js_low7: "js_or (js_and v 127) 128 = v mod 128 + 128"
proof -
  have b: "0 \<le> v mod 128" "v mod 128 < 128" by simp_all
  then have "ToInt32 (v mod 128) = v mod 128" by (intro ToInt32_id) linarith+
  moreover have "ToInt32 128 = 128" by (simp add: ToInt32_def)
  ultimately show ?thesis using or_128 [OF b] by (simp add: js_or_def js_and_127)
qed

lemma js_shr_7: "0 \<le> v \<Longrightarrow> v < 4294967296 \<Longrightarrow> js_shr v 7 = v div 128"
  by (simp add: js_shr_def ToUint32_def)

lemma js_shr_0: "js_shr v 0 = ToUint32 v"
  by (simp add: js_shr_def)


lemma store_conv:
  "pos < length buf \<Longrightarrow> store buf pos v = take pos buf @ [v mod 256] @ drop (Suc pos) buf"
  by (simp add: store_def upd_conv_take_nth_drop)

lemma take_Suc_store:
  "pos < length buf \<Longrightarrow> take (Suc pos) (store buf pos v) = take pos buf @ [v mod 256]"
  by (simp add: store_conv)

lemma writeVarint32_rec:
  "writeVarint32 buf pos v =
     (if v > 127 then writeVarint32 (store buf pos (js_or (js_and v 127) 128)) (pos + 1) (js_shr v 7)
      else store buf pos v)"
  unfolding writeVarint32_def by (subst writeVarint32_loop.simps) simp

lemma length_varint_bytes_pos: "0 < length (varint_bytes v)"
  by (subst varint_bytes.simps) simp

lemma writeVarint32_bytes:
  "0 \<le> v \<Longrightarrow> v < 4294967296 \<Longrightarrow> pos + length (varint_bytes v) \<le> length buf \<Longrightarrow>
     writeVarint32 buf pos v
       = take pos buf @ varint_bytes v @ drop (pos + length (varint_bytes v)) buf"
proof (induction buf pos v rule: writeVarint32_loop.induct)
  case (1 buf pos v)
  show ?case
  proof (cases "v > 127")
    case False
    then have vb: "varint_bytes v = [v]" by (subst varint_bytes.simps) simp
    have "v mod 256 = v" using False "1.prems"(1) by simp
    moreover have "pos < length buf" using "1.prems"(3) vb by simp
    ultimately show ?thesis using False
      by (subst writeVarint32_rec) (simp add: vb store_conv)
  next
    case True
    define b where "b = v mod 128 + 128"
    have vb: "varint_bytes v = b # varint_bytes (v div 128)"
      using True by (subst varint_bytes.simps) (simp add: b_def)
    have bm: "b mod 256 = b" using True by (simp add: b_def)
    have lt: "pos < length buf" using "1.prems"(3) vb by simp
    have s7: "js_shr v 7 = v div 128" using "1.prems" by (simp add: js_shr_7)
    have d: "0 \<le> v div 128" "v div 128 < 4294967296" using "1.prems" by simp_all
    have len: "pos + 1 + length (varint_bytes (v div 128)) \<le> length (store buf pos (js_or (js_and v 127) 128))"
      using "1.prems"(3) vb by simp
    have ih: "writeVarint32 (store buf pos (js_or (js_and v 127) 128)) (pos + 1) (v div 128)
      = take (pos + 1) (store buf pos (js_or (js_and v 127) 128)) @ varint_bytes (v div 128)
        @ drop (pos + 1 + length (varint_bytes (v div 128))) (store buf pos (js_or (js_and v 127) 128))"
      using "1.IH" [OF True] d len unfolding s7 by simp
    have "writeVarint32 buf pos v = writeVarint32 (store buf pos (js_or (js_and v 127) 128)) (pos + 1) (v div 128)"
      using True by (subst writeVarint32_rec) (simp add: s7)
    also have "\<dots> = take pos buf @ [b] @ varint_bytes (v div 128)
        @ drop (pos + 1 + length (varint_bytes (v div 128))) buf"
      unfolding ih using lt by (simp add: take_Suc_store js_low7 b_def [symmetric] bm)
    finally show ?thesis by (simp add: vb)
  qed
qed

lemma writeVarint32_loop_pos:
  "0 \<le> v \<Longrightarrow> v < 4294967296 \<Longrightarrow>
     fst (snd (writeVarint32_loop buf pos v)) + 1 = pos + length (varint_bytes v)"
proof (induction buf pos v rule: writeVarint32_loop.induct)
  case (1 buf pos v)
  show ?case
  proof (cases "v > 127")
    case False
    then show ?thesis
      by (subst writeVarint32_loop.simps, subst varint_bytes.simps) simp
  next
    case True
    have s7: "js_shr v 7 = v div 128" using "1.prems" by (simp add: js_shr_7)
    have d: "0 \<le> v div 128" "v div 128 < 4294967296" using "1.prems" by simp_all
    have "fst (snd (writeVarint32_loop (store buf pos (js_or (js_and v 127) 128)) (pos + 1) (v div 128))) + 1
       = pos + 1 + length (varint_bytes (v div 128))"
      using "1.IH" [OF True] d unfolding s7 by simp
    then show ?thesis using True
      by (subst writeVarint32_loop.simps, subst varint_bytes.simps) (simp add: s7)
  qed
qed

lemma varint_bytes_ne [simp]: "varint_bytes v \<noteq> []"
  by (subst varint_bytes.simps) simp

lemma varint_bytes_small: "\<not> v > 127 \<Longrightarrow> varint_bytes v = [v]"
  by (subst varint_bytes.simps) simp

lemma varint_bytes_large: "v > 127 \<Longrightarrow> varint_bytes v = (v mod 128 + 128) # varint_bytes (v div 128)"
  by (subst varint_bytes.simps) simp

lemma length_varint_bytes_le:
  "v < 128 ^ Suc k \<Longrightarrow> length (varint_bytes v) \<le> Suc k"
proof (induction k arbitrary: v)
  case 0
  then show ?case by (simp add: varint_bytes_small)
next
  case (Suc k)
  show ?case
  proof (cases "v > 127")
    case False
    then show ?thesis by (simp add: varint_bytes_small)
  next
    case True
    have "v < 128 * 128 ^ Suc k" using Suc.prems by simp
    then have "v div 128 < 128 ^ Suc k" by (simp add: div_less_iff_less_mult mult.commute)
    then have "length (varint_bytes (v div 128)) \<le> Suc k" by (rule Suc.IH)
    then show ?thesis using True by (simp add: varint_bytes_large)
  qed
qed

lemma length_varint_bytes_ge:
  "128 ^ k \<le> v \<Longrightarrow> Suc k \<le> length (varint_bytes v)"
proof (induction k arbitrary: v)
  case 0
  show ?case by (simp add: Suc_le_eq)
next
  case (Suc k)
  have "(128::int) ^ Suc k \<ge> 128" by (simp add: self_le_power)
  then have big: "v > 127" using Suc.prems by linarith
  have "128 * 128 ^ k \<le> v" using Suc.prems by simp
  then have "(128 * 128 ^ k) div 128 \<le> v div 128" by (rule zdiv_mono1) simp
  then have "128 ^ k \<le> v div 128" by simp
  then have "Suc k \<le> length (varint_bytes (v div 128))" by (rule Suc.IH)
  then show ?case using big by (simp add: varint_bytes_large)
qed

lemma varint_bytes_nth:
  "0 \<le> v \<Longrightarrow> k < length (varint_bytes v) \<Longrightarrow>
     varint_bytes v ! k =
       (if Suc k < length (varint_bytes v) then 128 + (v div 128 ^ k) mod 128 else v div 128 ^ k)"
proof (induction k arbitrary: v)
  case 0
  then show ?case by (cases "v > 127") (simp_all add: varint_bytes_small varint_bytes_large length_varint_bytes_pos)
next
  case (Suc k)
  have big: "v > 127"
  proof (rule ccontr)
    assume "\<not> v > 127"
    then have "varint_bytes v = [v]" by (rule varint_bytes_small)
    with Suc.prems(2) show False by simp
  qed
  have d: "0 \<le> v div 128" using Suc.prems(1) by simp
  have k: "k < length (varint_bytes (v div 128))" using Suc.prems(2) big by (simp add: varint_bytes_large)
  have e: "v div 128 div 128 ^ k = v div 128 ^ Suc k"
    by (simp add: zdiv_zmult2_eq)
  show ?case using Suc.IH [OF d k] big by (simp add: varint_bytes_large e)
qed

lemma varint_bytes_map:
  assumes "0 \<le> v" and "n = length (varint_bytes v)"
  shows "varint_bytes v = map (\<lambda>k. if k + 1 < n then 128 + (v div 128 ^ k) mod 128 else v div 128 ^ k) [0..<n]"
  by (rule nth_equalityI) (simp_all add: assms varint_bytes_nth)

lemma length_varint_bytes_eq:
  "128 ^ k \<le> v \<Longrightarrow> v < 128 ^ Suc k \<Longrightarrow> length (varint_bytes v) = Suc k"
  using length_varint_bytes_le [of v k] length_varint_bytes_ge [of k v] by (rule_tac le_antisym)

lemma uint32_length:
  assumes "0 \<le> u" "u < 4294967296"
  shows "length (varint_bytes u) =
    (if u < 128 then 1 else if u < 16384 then 2 else if u < 2097152 then 3 else if u < 268435456 then 4 else 5)"
proof -
  consider "u < 128" | "128 \<le> u" "u < 16384" | "16384 \<le> u" "u < 2097152"
    | "2097152 \<le> u" "u < 268435456" | "268435456 \<le> u"
    by linarith
  then show ?thesis
  proof cases
    case 1
    then show ?thesis by (simp add: varint_bytes_small)
  next
    case 2
    then show ?thesis using length_varint_bytes_eq [of 1 u] by simp
  next
    case 3
    then show ?thesis using length_varint_bytes_eq [of 2 u] by simp
  next
    case 4
    then show ?thesis using length_varint_bytes_eq [of 3 u] by simp
  next
    case 5
    then show ?thesis using length_varint_bytes_eq [of 4 u] assms by simp
  qed
qed

lemma ToUint32_range: "0 \<le> ToUint32 v" "ToUint32 v < 4294967296"
  by (simp_all add: ToUint32_def)

lemma varint_bytes_last_group:
  assumes "0 \<le> v"
  shows "0 \<le> v div 128 ^ (length (varint_bytes v) - 1)"
    and "v div 128 ^ (length (varint_bytes v) - 1) < 128"
proof -
  define n where "n = length (varint_bytes v) - 1"
  have n: "length (varint_bytes v) = Suc n"
    using length_varint_bytes_pos [of v] by (simp add: n_def)
  have "\<not> 128 ^ Suc n \<le> v"
  proof
    assume "128 ^ Suc n \<le> v"
    then have "Suc (Suc n) \<le> length (varint_bytes v)" by (rule length_varint_bytes_ge)
    with n show False by simp
  qed
  then have lt: "v < 128 * 128 ^ n" by simp
  have q: "(0::int) < 128 ^ n" by simp
  have "v div 128 ^ n * 128 ^ n + v mod 128 ^ n = v" by (rule div_mult_mod_eq)
  moreover have "0 \<le> v mod 128 ^ n" using q by (rule pos_mod_sign)
  ultimately have "v div 128 ^ n * 128 ^ n < 128 * 128 ^ n" using lt by linarith
  then have "v div 128 ^ n < 128" using q by (simp only: mult_less_cancel_right_pos)
  then show "v div 128 ^ (length (varint_bytes v) - 1) < 128"
    unfolding n_def [symmetric] .
  show "0 \<le> v div 128 ^ (length (varint_bytes v) - 1)"
    using assms by (simp add: pos_imp_zdiv_nonneg_iff)
qed

lemma uint32_push:
  "uint32 w v = push w (if ToUint32 v < 128 then Fn_writeByte else Fn_writeVarint32)
     (length (varint_bytes (ToUint32 v))) (VNum (ToUint32 v))"
  using ToUint32_range [of v]
  by (simp add: uint32_def js_shr_0 Let_def uint32_length)

lemma call_fn_uint32:
  assumes "0 \<le> u" "u < 4294967296" "pos + length (varint_bytes u) \<le> length buf"
  shows "call_fn (if u < 128 then Fn_writeByte else Fn_writeVarint32) buf pos (VNum u)
     = take pos buf @ varint_bytes u @ drop (pos + length (varint_bytes u)) buf"
proof (cases "u < 128")
  case True
  then have vb: "varint_bytes u = [u]" by (simp add: varint_bytes_small)
  have "u mod 256 = u" using True assms(1) by simp
  moreover have "pos < length buf" using assms(3) vb by simp
  ultimately show ?thesis using True by (simp add: vb writeByte_def js_and_255 store_conv)
next
  case False
  then show ?thesis using writeVarint32_bytes [OF assms] by simp
qed

lemma push_facts:
  "len (push w f l x) = len w + l"
  "head (push w f l x) = head w"
  "states (push w f l x) = states w"
  "tail (push w f l x) = fresh w"
  "fresh (push w f l x) = fresh w + 1"
  "op_fn (heap (push w f l x) (fresh w)) = f"
  "op_val (heap (push w f l x) (fresh w)) = x"
  "op_len (heap (push w f l x) (fresh w)) = l"
  "op_next (heap (push w f l x) (tail w)) = Some (fresh w)"
  by (simp_all add: push_def Let_def new_Op_def)

lemma finish_uint32:
  "map_option fst (finish (uint32 new_Writer v)) = Some (varint_bytes (ToUint32 v))"
proof -
  define u where "u = ToUint32 v"
  define n where "n = length (varint_bytes u)"
  have r: "0 \<le> u" "u < 4294967296" using ToUint32_range [of v] by (simp_all add: u_def)
  have "call_fn (if u < 128 then Fn_writeByte else Fn_writeVarint32) (replicate n 0) 0 (VNum u)
     = take 0 (replicate n 0) @ varint_bytes u @ drop (0 + length (varint_bytes u)) (replicate n 0)"
    by (rule call_fn_uint32 [OF r]) (simp add: n_def)
  then have c: "call_fn (if u < 128 then Fn_writeByte else Fn_writeVarint32) (replicate n 0) 0 (VNum u)
     = varint_bytes u" by (simp add: n_def)
  have "map_option fst (finish (push new_Writer (if u < 128 then Fn_writeByte else Fn_writeVarint32) n (VNum u)))
     = Some (call_fn (if u < 128 then Fn_writeByte else Fn_writeVarint32) (replicate n 0) 0 (VNum u))"
    by (simp add: finish_def reset_def push_def new_Writer_def new_Op_def Let_def
        finish_internal_def finish_internal_loop.simps new_ArrayImpl_def)
  then have "map_option fst (finish (push new_Writer (if u < 128 then Fn_writeByte else Fn_writeVarint32) n (VNum u)))
     = Some (varint_bytes u)" unfolding c .
  then show ?thesis unfolding uint32_push u_def n_def .
qed

text \<open>
  C7: with \<open>u\<close> the argument coerced to an unsigned 32-bit integer, \<open>uint32\<close> enqueues one
  operation of length \<open>n\<close>, which is 1, 2, 3, 4 or 5 by the magnitude of \<open>u\<close>, with the emit
  function \<open>writeByte\<close> below 128 and \<open>writeVarint32\<close> from 128 on: one new operation with
  this function, value and length is linked behind the old tail and becomes the tail, and
  \<open>len\<close> grows by \<open>n\<close>. In a buffer with room for them, the emit function writes exactly
  the \<open>n\<close> bytes at \<open>pos\<close>: the 7-bit groups of \<open>u\<close>, least significant first, each with
  the continuation bit (128) but the last, which is below 128. The loop of
  \<open>writeVarint32\<close> advances the position \<open>n - 1\<close> times before the last byte is stored. A
  new writer with this one value finishes to exactly these \<open>n\<close> bytes.
\<close>
theorem uint32_varint:
  assumes "u = ToUint32 v"
    and "n = (if u < 128 then 1 else if u < 16384 then 2 else if u < 2097152 then 3
              else if u < 268435456 then 4 else 5)"
    and "f = (if u < 128 then Fn_writeByte else Fn_writeVarint32)"
  shows "uint32 w v = push w f n (VNum u)
     \<and> len (uint32 w v) = len w + n
     \<and> fresh (uint32 w v) = fresh w + 1
     \<and> tail (uint32 w v) = fresh w
     \<and> op_next (heap (uint32 w v) (tail w)) = Some (tail (uint32 w v))
     \<and> op_fn (heap (uint32 w v) (tail (uint32 w v))) = f
     \<and> op_val (heap (uint32 w v) (tail (uint32 w v))) = VNum u
     \<and> op_len (heap (uint32 w v) (tail (uint32 w v))) = n
     \<and> map_option fst (finish (uint32 new_Writer v))
         = Some (map (\<lambda>k. if k + 1 < n then 128 + (u div 128 ^ k) mod 128 else u div 128 ^ k) [0..<n])
     \<and> (pos + n \<le> length buf \<longrightarrow>
          call_fn f buf pos (VNum u)
            = take pos buf
              @ map (\<lambda>k. if k + 1 < n then 128 + (u div 128 ^ k) mod 128 else u div 128 ^ k) [0..<n]
              @ drop (pos + n) buf)
     \<and> length (call_fn f buf pos (VNum u)) = length buf
     \<and> (128 \<le> u \<longrightarrow> fst (snd (writeVarint32_loop buf pos u)) + 1 = pos + n)
     \<and> 0 \<le> u div 128 ^ (n - 1) \<and> u div 128 ^ (n - 1) < 128"
proof -
  have r: "0 \<le> u" "u < 4294967296" using ToUint32_range [of v] by (simp_all add: assms(1))
  have n: "n = length (varint_bytes u)" using uint32_length [OF r] by (simp add: assms(2))
  have 1: "uint32 w v = push w f n (VNum u)"
    unfolding n assms(3) assms(1) by (rule uint32_push)
  have 2: "pos + n \<le> length buf \<longrightarrow>
          call_fn f buf pos (VNum u)
            = take pos buf
              @ map (\<lambda>k. if k + 1 < n then 128 + (u div 128 ^ k) mod 128 else u div 128 ^ k) [0..<n]
              @ drop (pos + n) buf"
  proof
    assume "pos + n \<le> length buf"
    then have "call_fn f buf pos (VNum u)
        = take pos buf @ varint_bytes u @ drop (pos + n) buf"
      unfolding n assms(3) by (rule call_fn_uint32 [OF r])
    then show "call_fn f buf pos (VNum u)
            = take pos buf
              @ map (\<lambda>k. if k + 1 < n then 128 + (u div 128 ^ k) mod 128 else u div 128 ^ k) [0..<n]
              @ drop (pos + n) buf"
      using varint_bytes_map [OF r(1) n] by simp
  qed
  have 3: "128 \<le> u \<longrightarrow> fst (snd (writeVarint32_loop buf pos u)) + 1 = pos + n"
    unfolding n using writeVarint32_loop_pos [OF r] by simp
  have 4: "0 \<le> u div 128 ^ (n - 1) \<and> u div 128 ^ (n - 1) < 128"
    unfolding n using varint_bytes_last_group [OF r(1)] by simp
  have 5: "len (uint32 w v) = len w + n" "fresh (uint32 w v) = fresh w + 1"
    "tail (uint32 w v) = fresh w"
    "op_next (heap (uint32 w v) (tail w)) = Some (tail (uint32 w v))"
    "op_fn (heap (uint32 w v) (tail (uint32 w v))) = f"
    "op_val (heap (uint32 w v) (tail (uint32 w v))) = VNum u"
    "op_len (heap (uint32 w v) (tail (uint32 w v))) = n"
    unfolding 1 by (simp_all add: push_facts)
  have 6: "map_option fst (finish (uint32 new_Writer v))
      = Some (map (\<lambda>k. if k + 1 < n then 128 + (u div 128 ^ k) mod 128 else u div 128 ^ k) [0..<n])"
    using finish_uint32 [of v] varint_bytes_map [OF r(1) n] by (simp add: assms(1))
  have 7: "length (call_fn f buf pos (VNum u)) = length buf" by simp
  from 1 5 6 2 7 3 4 show ?thesis by blast
qed

theorem uint32_varint_witness:
  "ToUint32 300 = 300
   \<and> uint32 new_Writer 300 = push new_Writer Fn_writeVarint32 2 (VNum 300)
   \<and> len (uint32 new_Writer 300) = 2
   \<and> map_option fst (finish (uint32 new_Writer 300)) = Some [172, 2]
   \<and> call_fn Fn_writeVarint32 [0, 0, 0] 0 (VNum 300) = [172, 2, 0]
   \<and> fst (snd (writeVarint32_loop [0, 0, 0] 0 300)) + 1 = 2"
proof -
  have u: "300 = ToUint32 300" by (simp add: ToUint32_def)
  have n: "(2::nat) = (if (300::int) < 128 then 1 else if (300::int) < 16384 then 2
      else if (300::int) < 2097152 then 3 else if (300::int) < 268435456 then 4 else 5)" by simp
  have f: "Fn_writeVarint32 = (if (300::int) < 128 then Fn_writeByte else Fn_writeVarint32)" by simp
  note t = uint32_varint [OF u n f, of new_Writer 0 "[0, 0, 0]"]
  have m: "map (\<lambda>k. if k + 1 < 2 then 128 + ((300::int) div 128 ^ k) mod 128 else 300 div 128 ^ k) [0..<2]
      = [172, 2]" by (simp add: upt_rec)
  from t have 1: "uint32 new_Writer 300 = push new_Writer Fn_writeVarint32 2 (VNum 300)" by blast
  from t have "call_fn Fn_writeVarint32 [0, 0, 0] 0 (VNum 300)
      = take 0 [0, 0, 0] @ map (\<lambda>k. if k + 1 < 2 then 128 + ((300::int) div 128 ^ k) mod 128 else 300 div 128 ^ k) [0..<2]
        @ drop (0 + 2) [0, 0, 0]" by simp
  then have 2: "call_fn Fn_writeVarint32 [0, 0, 0] 0 (VNum 300) = [172, 2, 0]"
    unfolding m by simp
  from t have 3: "fst (snd (writeVarint32_loop [0, 0, 0] 0 300)) + 1 = 2" by simp
  from t have "len (uint32 new_Writer 300) = len new_Writer + 2" by blast
  then have 4: "len (uint32 new_Writer 300) = 2" by (simp add: new_Writer_def)
  from t have "map_option fst (finish (uint32 new_Writer 300))
      = Some (map (\<lambda>k. if k + 1 < 2 then 128 + ((300::int) div 128 ^ k) mod 128 else 300 div 128 ^ k) [0..<2])"
    by blast
  then have 5: "map_option fst (finish (uint32 new_Writer 300)) = Some [172, 2]"
    unfolding m .
  from u 1 2 3 4 5 show ?thesis by (simp only: simp_thms)
qed

section \<open>Zig-zag\<close>

lemma ToInt32_0 [simp]: "ToInt32 0 = 0"
  by (simp add: ToInt32_def)

lemma ToInt32_1 [simp]: "ToInt32 1 = 1"
  by (simp add: ToInt32_def)

lemma ToInt32_m1 [simp]: "ToInt32 (- 1) = - 1"
  by (simp add: ToInt32_id)

lemma js_and_1: "js_and v 1 = v mod 2"
proof -
  have "js_and v 1 = signed_take_bit 31 v AND mask 1"
    by (simp add: js_and_def ToInt32_signed_take_bit [of v])
  also have "\<dots> = take_bit 1 (signed_take_bit 31 v)" by (simp only: take_bit_eq_mask)
  also have "\<dots> = take_bit 1 v" by (rule take_bit_signed_take_bit) simp
  finally show ?thesis unfolding take_bit_eq_mod by simp
qed

lemma ToUint32_cong: "a mod 4294967296 = b mod 4294967296 \<Longrightarrow> ToUint32 a = ToUint32 b"
  by (simp add: ToUint32_def)

lemma ToInt32_mod: "ToInt32 x mod 4294967296 = x mod 4294967296"
  using ToUint32_ToInt32 [of x] by (simp add: ToUint32_def)

lemma zigzag32_value:
  assumes "- 2147483648 \<le> v" "v < 2147483648"
  shows "ToUint32 (js_xor (js_shl v 1) (js_sar v 31)) = (if 0 \<le> v then 2 * v else - 2 * v - 1)"
proof (cases "0 \<le> v")
  case True
  have sar: "js_sar v 31 = 0" using True assms by (simp add: js_sar_def ToInt32_id)
  have shl: "js_shl v 1 = ToInt32 (v * 2)" using assms by (simp add: js_shl_def ToInt32_id)
  have "js_xor (js_shl v 1) (js_sar v 31) = ToInt32 (ToInt32 (v * 2))"
    unfolding js_xor_def sar shl by simp
  then have "ToUint32 (js_xor (js_shl v 1) (js_sar v 31)) = ToUint32 (v * 2)"
    by (simp add: ToUint32_ToInt32)
  also have "\<dots> = v * 2" using True assms by (intro ToUint32_id) simp_all
  finally show ?thesis using True by simp
next
  case False
  have "v div 2147483648 = - 1" using False assms by linarith
  then have sar: "js_sar v 31 = - 1" using False assms by (simp add: js_sar_def ToInt32_id)
  have shl: "js_shl v 1 = ToInt32 (v * 2)" using assms by (simp add: js_shl_def ToInt32_id)
  have "js_xor (js_shl v 1) (js_sar v 31) = NOT (ToInt32 (ToInt32 (v * 2)))"
    unfolding js_xor_def sar shl by simp
  also have "\<dots> = - ToInt32 (ToInt32 (v * 2)) - 1" by (simp add: not_int_def)
  finally have x: "js_xor (js_shl v 1) (js_sar v 31) = - ToInt32 (ToInt32 (v * 2)) - 1" .
  have "(- ToInt32 (ToInt32 (v * 2)) - 1) mod 4294967296 = (- (v * 2) - 1) mod 4294967296"
    by (intro mod_diff_cong mod_minus_cong) (simp_all add: ToInt32_mod)
  then have "ToUint32 (js_xor (js_shl v 1) (js_sar v 31)) = ToUint32 (- (v * 2) - 1)"
    unfolding x by (rule ToUint32_cong)
  also have "\<dots> = - (v * 2) - 1" using False assms by (intro ToUint32_id) simp_all
  finally show ?thesis using False by simp
qed

lemma zigzag_decode32_value:
  assumes "0 \<le> u" "u < 4294967296"
  shows "zigzag_decode32 u = (if even u then u div 2 else - (u div 2) - 1)"
proof -
  have h: "js_shr u 1 = u div 2" using assms by (simp add: js_shr_def ToUint32_def)
  have r: "ToInt32 (u div 2) = u div 2" using assms by (intro ToInt32_id) simp_all
  show ?thesis
  proof (cases "even u")
    case True
    then have "js_and u 1 = 0" by (simp add: js_and_1)
    then show ?thesis using True unfolding zigzag_decode32_def h js_xor_def by (simp add: r)
  next
    case False
    then have "js_and u 1 = 1" by (simp add: js_and_1 odd_iff_mod_2_eq_one)
    then show ?thesis using False unfolding zigzag_decode32_def h js_xor_def by (simp add: r not_int_def)
  qed
qed

lemma decode_varint_bytes: "0 \<le> v \<Longrightarrow> decode_varint (varint_bytes v) = v"
proof (induction v rule: varint_bytes.induct)
  case (1 v)
  show ?case
  proof (cases "v > 127")
    case False
    then show ?thesis using "1.prems" by (simp add: varint_bytes_small)
  next
    case True
    have "0 \<le> v div 128" using "1.prems" by simp
    then have "decode_varint (varint_bytes (v div 128)) = v div 128" by (rule "1.IH" [OF True])
    then show ?thesis using True by (simp add: varint_bytes_large)
  qed
qed

lemma zigzag32_bij:
  "bij_betw (\<lambda>x. ToUint32 (js_xor (js_shl x 1) (js_sar x 31)))
     {- 2147483648 ..< 2147483648} {0 ..< 4294967296}"
proof (rule bij_betw_byWitness [where f' = zigzag_decode32])
  show "\<forall>a\<in>{- 2147483648..<2147483648}.
       zigzag_decode32 (ToUint32 (js_xor (js_shl a 1) (js_sar a 31))) = a"
  proof
    fix a :: int
    assume "a \<in> {- 2147483648..<2147483648}"
    then have a: "- 2147483648 \<le> a" "a < 2147483648" by simp_all
    have e: "ToUint32 (js_xor (js_shl a 1) (js_sar a 31)) = (if 0 \<le> a then 2 * a else - 2 * a - 1)"
      by (rule zigzag32_value [OF a])
    have "zigzag_decode32 (if 0 \<le> a then 2 * a else - 2 * a - 1) = a"
      using a by (subst zigzag_decode32_value) auto
    then show "zigzag_decode32 (ToUint32 (js_xor (js_shl a 1) (js_sar a 31))) = a"
      by (simp only: e)
  qed
next
  show "\<forall>u\<in>{0..<4294967296}.
       ToUint32 (js_xor (js_shl (zigzag_decode32 u) 1) (js_sar (zigzag_decode32 u) 31)) = u"
  proof
    fix u :: int
    assume "u \<in> {0..<4294967296}"
    then have u: "0 \<le> u" "u < 4294967296" by simp_all
    define x where "x = (if even u then u div 2 else - (u div 2) - 1)"
    have d: "zigzag_decode32 u = x" unfolding x_def by (rule zigzag_decode32_value [OF u])
    have x: "- 2147483648 \<le> x" "x < 2147483648" using u by (auto simp: x_def)
    have "ToUint32 (js_xor (js_shl x 1) (js_sar x 31)) = (if 0 \<le> x then 2 * x else - 2 * x - 1)"
      by (rule zigzag32_value [OF x])
    also have "\<dots> = u" using u by (auto simp: x_def elim: evenE oddE)
    finally show "ToUint32 (js_xor (js_shl (zigzag_decode32 u) 1) (js_sar (zigzag_decode32 u) 31)) = u"
      by (simp only: d)
  qed
next
  show "(\<lambda>x. ToUint32 (js_xor (js_shl x 1) (js_sar x 31))) ` {- 2147483648..<2147483648}
      \<subseteq> {0..<4294967296}"
    using ToUint32_range by auto
next
  show "zigzag_decode32 ` {0..<4294967296} \<subseteq> {- 2147483648..<2147483648}"
  proof
    fix x assume "x \<in> zigzag_decode32 ` {0..<4294967296}"
    then obtain u where u: "0 \<le> u" "u < 4294967296" and x: "x = zigzag_decode32 u" by auto
    show "x \<in> {- 2147483648..<2147483648}"
      unfolding x zigzag_decode32_value [OF u] using u by auto
  qed
qed

text \<open>
  C8: for every signed 32-bit \<open>v\<close>, \<open>sint32\<close> is \<open>uint32\<close> of \<open>(v << 1) ^ (v >> 31)\<close>; a new
  writer with this one value finishes to the varint of that unsigned 32-bit value, the
  reader's varint decoding gives the value back and its zig-zag inverse gives \<open>v\<close>. The
  zig-zag transform is a bijection from the signed onto the unsigned 32-bit values.
\<close>
theorem sint32_zigzag_roundtrip:
  assumes "- 2147483648 \<le> v" "v < 2147483648"
  shows "sint32 w v = uint32 w (js_xor (js_shl v 1) (js_sar v 31))
     \<and> map_option fst (finish (sint32 new_Writer v))
         = Some (varint_bytes (ToUint32 (js_xor (js_shl v 1) (js_sar v 31))))
     \<and> map_option (decode_varint \<circ> fst) (finish (sint32 new_Writer v))
         = Some (ToUint32 (js_xor (js_shl v 1) (js_sar v 31)))
     \<and> map_option (zigzag_decode32 \<circ> decode_varint \<circ> fst) (finish (sint32 new_Writer v)) = Some v
     \<and> bij_betw (\<lambda>x. ToUint32 (js_xor (js_shl x 1) (js_sar x 31)))
          {- 2147483648 ..< 2147483648} {0 ..< 4294967296}"
proof -
  define u where "u = ToUint32 (js_xor (js_shl v 1) (js_sar v 31))"
  have f: "map_option fst (finish (sint32 new_Writer v)) = Some (varint_bytes u)"
    unfolding sint32_def u_def by (rule finish_uint32)
  have u0: "0 \<le> u" unfolding u_def by (rule ToUint32_range)
  have d: "decode_varint (varint_bytes u) = u" using u0 by (rule decode_varint_bytes)
  have z: "zigzag_decode32 u = v"
  proof -
    have e: "u = (if 0 \<le> v then 2 * v else - 2 * v - 1)"
      unfolding u_def by (rule zigzag32_value [OF assms])
    show ?thesis unfolding e using assms by (subst zigzag_decode32_value) auto
  qed
  from f obtain w' where fw: "finish (sint32 new_Writer v) = Some (varint_bytes u, w')"
    by auto
  have 1: "sint32 w v = uint32 w (js_xor (js_shl v 1) (js_sar v 31))"
    by (rule sint32_def)
  have 2: "map_option (decode_varint \<circ> fst) (finish (sint32 new_Writer v)) = Some u"
    by (simp add: fw d)
  have 3: "map_option (zigzag_decode32 \<circ> decode_varint \<circ> fst) (finish (sint32 new_Writer v)) = Some v"
    by (simp add: fw d z)
  from 1 f 2 3 zigzag32_bij show ?thesis unfolding u_def by blast
qed

theorem sint32_zigzag_roundtrip_witness:
  "- 2147483648 \<le> (- 1 :: int) \<and> (- 1 :: int) < 2147483648
   \<and> map_option fst (finish (sint32 new_Writer (- 1))) = Some [1]
   \<and> map_option (zigzag_decode32 \<circ> decode_varint \<circ> fst) (finish (sint32 new_Writer (- 1))) = Some (- 1)"
proof -
  have a: "- 2147483648 \<le> (- 1 :: int)" and b: "(- 1 :: int) < 2147483648" by simp_all
  have c: "map_option fst (finish (sint32 new_Writer (- 1))) = Some [1]" by code_simp
  from sint32_zigzag_roundtrip [OF a b, of new_Writer]
  have "map_option (zigzag_decode32 \<circ> decode_varint \<circ> fst) (finish (sint32 new_Writer (- 1))) = Some (- 1)"
    by blast
  then show ?thesis using a b c by simp
qed

section \<open>Varints of 64 bits\<close>

lemma ToInt32_idem: "ToInt32 (ToInt32 x) = ToInt32 x"
  by (simp add: ToInt32_signed_take_bit)

lemma or_disjoint_25:
  assumes "0 \<le> a" "a < 33554432"
  shows "a OR (r * 33554432) = a + r * (33554432 :: int)"
proof -
  have t: "take_bit 25 a = a" using assms by (simp add: take_bit_int_eq_self)
  have p: "r * 33554432 = push_bit 25 r" by (simp add: push_bit_eq_mult)
  have "a OR push_bit 25 r = take_bit 25 a OR push_bit 25 r" by (simp only: t)
  also have "\<dots> = concat_bit 25 a r" by (simp add: concat_bit_def)
  also have "\<dots> = take_bit 25 a + push_bit 25 r" by (simp add: concat_bit_eq)
  finally show ?thesis by (simp only: t p)
qed

lemma lo_step:
  assumes "0 \<le> l" "l < 4294967296" "0 \<le> h" "h < 4294967296"
  shows "ToUint32 (js_or (js_shr l 7) (js_shl h 25)) = l div 128 + (h mod 128) * 33554432"
proof -
  define a where "a = l div 128"
  have a: "0 \<le> a" "a < 33554432" using assms by (simp_all add: a_def)
  have shr: "js_shr l 7 = a" using assms by (simp add: js_shr_7 a_def)
  have ia: "ToInt32 a = a" using a by (intro ToInt32_id) linarith+
  have "(h * 33554432) mod 4294967296 = (h mod 128) * 33554432"
    using mult_mod_right [of 33554432 h 128] by (simp add: mult.commute)
  moreover have "(ToInt32 h * 33554432) mod 4294967296 = (h * 33554432) mod 4294967296"
    by (intro mod_mult_cong) (simp_all add: ToInt32_mod)
  ultimately have m: "ToInt32 (ToInt32 h * 33554432) mod 4294967296 = (h mod 128) * 33554432"
    by (simp add: ToInt32_mod)
  have "ToUint32 (js_or (js_shr l 7) (js_shl h 25))
      = take_bit 32 (a OR ToInt32 (ToInt32 h * 33554432))"
    unfolding shr js_or_def js_shl_def by (simp add: ia ToInt32_idem ToUint32_take_bit)
  also have "\<dots> = take_bit 32 a OR take_bit 32 (ToInt32 (ToInt32 h * 33554432))" by simp
  also have "take_bit 32 a = a" using a by (simp add: take_bit_int_eq_self)
  also have "take_bit 32 (ToInt32 (ToInt32 h * 33554432)) = (h mod 128) * 33554432"
    using m by (simp add: take_bit_eq_mod)
  also have "a OR (h mod 128) * 33554432 = a + (h mod 128) * 33554432"
    using a by (rule or_disjoint_25)
  finally show ?thesis by (simp add: a_def)
qed

lemma loop1_step:
  assumes "halves_ok b" "hi b \<noteq> 0"
  defines "b' \<equiv> \<lparr> lo = ToUint32 (js_or (js_shr (lo b) 7) (js_shl (hi b) 25)), hi = js_shr (hi b) 7 \<rparr>"
  shows "halves_ok b'" and "uint64_of b' = uint64_of b div 128" and "uint64_of b > 127"
    and "js_or (js_and (lo b) 127) 128 = uint64_of b mod 128 + 128"
proof -
  from assms(1) have r: "0 \<le> lo b" "lo b < 4294967296" "0 \<le> hi b" "hi b < 4294967296"
    by (simp_all add: halves_ok_def)
  have l': "lo b' = lo b div 128 + (hi b mod 128) * 33554432"
    unfolding b'_def using lo_step [OF r] by simp
  have h': "hi b' = hi b div 128" unfolding b'_def using r by (simp add: js_shr_7)
  have m: "0 \<le> hi b mod 128" "hi b mod 128 < 128" by simp_all
  have d: "0 \<le> lo b div 128" "lo b div 128 < 33554432" using r by simp_all
  have "0 \<le> lo b'" "lo b' < 4294967296" unfolding l' using m d by linarith+
  moreover have "0 \<le> hi b'" "hi b' < 4294967296" unfolding h' using r by linarith+
  ultimately show "halves_ok b'" by (simp add: halves_ok_def)
  define q where "q = hi b div 128"
  define t where "t = hi b mod 128"
  have e: "hi b = 128 * q + t" by (simp add: q_def t_def)
  have "hi b * 4294967296 + lo b = 128 * (q * 4294967296 + t * 33554432) + lo b"
    by (subst e) (simp add: algebra_simps)
  then have "uint64_of b div 128 = q * 4294967296 + t * 33554432 + lo b div 128"
    by (simp add: uint64_of_def)
  then have "uint64_of b div 128 = (hi b div 128) * 4294967296 + (hi b mod 128) * 33554432 + lo b div 128"
    by (simp only: q_def t_def)
  then show "uint64_of b' = uint64_of b div 128" by (simp add: uint64_of_def [of b'] l' h')
  have "1 \<le> hi b" using r assms(2) by simp
  then show "uint64_of b > 127" using r by (simp add: uint64_of_def)
  have "uint64_of b mod 128 = lo b mod 128"
    by (simp add: uint64_of_def mod_add_left_eq [symmetric, of "hi b * 4294967296"] mod_mult_right_eq)
  then show "js_or (js_and (lo b) 127) 128 = uint64_of b mod 128 + 128" by (simp add: js_low7)
qed

lemma loop2_eq_loop32:
  "0 \<le> v \<Longrightarrow> v < 4294967296 \<Longrightarrow> writeVarint64_loop2 buf pos v = writeVarint32_loop buf pos v"
proof (induction buf pos v rule: writeVarint32_loop.induct)
  case (1 buf pos v)
  show ?case
  proof (cases "v > 127")
    case False
    then show ?thesis
      by (subst writeVarint64_loop2.simps, subst writeVarint32_loop.simps) simp
  next
    case True
    have z: "(0::int) \<le> 0" "(0::int) < 4294967296" by simp_all
    have s: "ToUint32 (js_or (js_shr v 7) (js_shl 0 25)) = v div 128"
      using lo_step [OF "1.prems" z] by simp
    have s7: "js_shr v 7 = v div 128" using "1.prems" by (simp add: js_shr_7)
    have s': "ToUint32 (js_or (v div 128) (js_shl 0 25)) = v div 128"
      using s unfolding s7 .
    have d: "0 \<le> v div 128" "v div 128 < 4294967296" using "1.prems" by simp_all
    have "writeVarint64_loop2 (store buf pos (js_or (js_and v 127) 128)) (pos + 1) (v div 128)
        = writeVarint32_loop (store buf pos (js_or (js_and v 127) 128)) (pos + 1) (v div 128)"
      using "1.IH" [OF True] d unfolding s7 by simp
    then show ?thesis using True
      by (subst writeVarint64_loop2.simps, subst writeVarint32_loop.simps) (simp add: s' s7)
  qed
qed

lemma run_hi0:
  assumes "halves_ok b" "hi b = 0"
  shows "writeVarint64_run buf pos b
     = (writeVarint32 buf pos (lo b), fst (snd (writeVarint32_loop buf pos (lo b))) + 1)"
proof -
  from assms(1) have r: "0 \<le> lo b" "lo b < 4294967296" by (simp_all add: halves_ok_def)
  have l1: "writeVarint64_loop1 buf pos b = (buf, pos, b)"
    using assms(2) by (subst writeVarint64_loop1.simps) simp
  show ?thesis
    by (simp add: writeVarint64_run_def l1 loop2_eq_loop32 [OF r] writeVarint32_def split: prod.splits)
qed

lemma run_rec:
  assumes "hi b \<noteq> 0"
  shows "writeVarint64_run buf pos b
     = writeVarint64_run (store buf pos (js_or (js_and (lo b) 127) 128)) (pos + 1)
         \<lparr> lo = ToUint32 (js_or (js_shr (lo b) 7) (js_shl (hi b) 25)), hi = js_shr (hi b) 7 \<rparr>"
  unfolding writeVarint64_run_def using assms by (subst writeVarint64_loop1.simps) simp

lemma uint64_of_hi0: "hi b = 0 \<Longrightarrow> uint64_of b = lo b"
  by (simp add: uint64_of_def)

lemma run_count:
  "halves_ok b \<Longrightarrow> snd (writeVarint64_run buf pos b) = pos + length (varint_bytes (uint64_of b))"
proof (induction buf pos b rule: writeVarint64_loop1.induct)
  case (1 buf pos b)
  show ?case
  proof (cases "hi b = 0")
    case True
    from "1.prems" have r: "0 \<le> lo b" "lo b < 4294967296" by (simp_all add: halves_ok_def)
    show ?thesis
      using writeVarint32_loop_pos [OF r, of buf pos]
      by (simp add: run_hi0 [OF "1.prems" True] uint64_of_hi0 [OF True])
  next
    case False
    define b' where "b' = \<lparr> lo = ToUint32 (js_or (js_shr (lo b) 7) (js_shl (hi b) 25)), hi = js_shr (hi b) 7 \<rparr>"
    note st = loop1_step [OF "1.prems" False, folded b'_def]
    have "snd (writeVarint64_run (store buf pos (js_or (js_and (lo b) 127) 128)) (pos + 1) b')
        = pos + 1 + length (varint_bytes (uint64_of b'))"
      unfolding b'_def by (rule "1.IH" [OF False]) (use st(1) in \<open>simp add: b'_def\<close>)
    then show ?thesis
      unfolding run_rec [OF False] b'_def [symmetric] st(2)
      using st(3) by (simp add: varint_bytes_large)
  qed
qed

lemma run_bytes:
  "halves_ok b \<Longrightarrow> pos + length (varint_bytes (uint64_of b)) \<le> length buf \<Longrightarrow>
     fst (writeVarint64_run buf pos b)
       = take pos buf @ varint_bytes (uint64_of b) @ drop (pos + length (varint_bytes (uint64_of b))) buf"
proof (induction buf pos b rule: writeVarint64_loop1.induct)
  case (1 buf pos b)
  show ?case
  proof (cases "hi b = 0")
    case True
    from "1.prems"(1) have r: "0 \<le> lo b" "lo b < 4294967296" by (simp_all add: halves_ok_def)
    show ?thesis
      using writeVarint32_bytes [OF r, of pos buf] "1.prems"(2)
      by (simp add: run_hi0 [OF "1.prems"(1) True] uint64_of_hi0 [OF True])
  next
    case False
    define b' where "b' = \<lparr> lo = ToUint32 (js_or (js_shr (lo b) 7) (js_shl (hi b) 25)), hi = js_shr (hi b) 7 \<rparr>"
    define x where "x = uint64_of b mod 128 + 128"
    note st = loop1_step [OF "1.prems"(1) False, folded b'_def]
    have vb: "varint_bytes (uint64_of b) = x # varint_bytes (uint64_of b')"
      using st(3) by (simp add: varint_bytes_large st(2) x_def)
    have xm: "x mod 256 = x" by (simp add: x_def)
    have lt: "pos < length buf" using "1.prems"(2) vb by simp
    have len: "pos + 1 + length (varint_bytes (uint64_of b')) \<le> length (store buf pos x)"
      using "1.prems"(2) vb by simp
    have ih: "fst (writeVarint64_run (store buf pos x) (pos + 1) b')
        = take (pos + 1) (store buf pos x) @ varint_bytes (uint64_of b')
          @ drop (pos + 1 + length (varint_bytes (uint64_of b'))) (store buf pos x)"
      using "1.IH" [OF False] st(1) len unfolding b'_def st(4) x_def by simp
    have "fst (writeVarint64_run buf pos b) = fst (writeVarint64_run (store buf pos x) (pos + 1) b')"
      unfolding run_rec [OF False] b'_def st(4) x_def ..
    also have "\<dots> = take pos buf @ [x] @ varint_bytes (uint64_of b')
          @ drop (pos + 1 + length (varint_bytes (uint64_of b'))) buf"
      unfolding ih using lt by (simp add: take_Suc_store xm)
    finally show ?thesis by (simp add: vb)
  qed
qed

lemma fromNumber_negative:
  assumes "- 2147483648 \<le> v" "v < 0"
  shows "LongBits_fromNumber v = \<lparr> lo = v + 4294967296, hi = 4294967295 \<rparr>"
proof -
  have "v div 4294967296 = - 1" using assms by linarith
  moreover have "v mod 4294967296 = v - 4294967296 * (v div 4294967296)"
    by (simp add: minus_mult_div_eq_mod)
  ultimately show ?thesis by (simp add: LongBits_fromNumber_def)
qed

lemma negative_int32_varint_length:
  assumes "- 2147483648 \<le> v" "v < 0"
  shows "length (varint_bytes (18446744073709551616 + v)) = 10"
  using length_varint_bytes_eq [of 9 "18446744073709551616 + v"] assms by simp

lemma finish_push_one:
  "map_option fst (finish (push new_Writer f n x)) = Some (call_fn f (replicate n 0) 0 x)"
  by (simp add: finish_def reset_def push_def new_Writer_def new_Op_def Let_def
        finish_internal_def finish_internal_loop.simps new_ArrayImpl_def)

text \<open>
  C6: for every signed 32-bit \<open>v\<close>: if \<open>v \<ge> 0\<close>, \<open>int32\<close> is \<open>uint32\<close>. If \<open>v < 0\<close>, \<open>int32\<close>
  enqueues one operation of length 10 with the emit function \<open>writeVarint64\<close> and the
  LongBits of \<open>v\<close>, whose high half is all ones (the sign extension); \<open>writeVarint64\<close> on
  it, as on every LongBits with such a high half, advances the position by exactly 10, and
  a new writer with this one value finishes to the ten bytes of the varint of \<open>2^64 + v\<close>.
\<close>
theorem int32_negative_ten_bytes:
  assumes "- 2147483648 \<le> v" "v < 2147483648"
  shows "(0 \<le> v \<longrightarrow> int32 w v = uint32 w v)
     \<and> (v < 0 \<longrightarrow>
          int32 w v = push w Fn_writeVarint64 10 (VLong (LongBits_fromNumber v))
        \<and> LongBits_fromNumber v = \<lparr> lo = v + 4294967296, hi = 4294967295 \<rparr>
        \<and> call_fn Fn_writeVarint64 buf pos (VLong (LongBits_fromNumber v))
            = fst (writeVarint64_run buf pos (LongBits_fromNumber v))
        \<and> snd (writeVarint64_run buf pos (LongBits_fromNumber v)) = pos + 10
        \<and> (0 \<le> l \<and> l < 4294967296 \<longrightarrow>
              snd (writeVarint64_run buf pos \<lparr> lo = l, hi = 4294967295 \<rparr>) = pos + 10)
        \<and> length (varint_bytes (18446744073709551616 + v)) = 10
        \<and> map_option fst (finish (int32 new_Writer v))
            = Some (varint_bytes (18446744073709551616 + v)))"
proof (cases "v < 0")
  case False
  then show ?thesis by (simp add: int32_def)
next
  case True
  define b where "b = LongBits_fromNumber v"
  have b: "b = \<lparr> lo = v + 4294967296, hi = 4294967295 \<rparr>"
    unfolding b_def using assms(1) True by (rule fromNumber_negative)
  have ok: "halves_ok b" using assms(1) True by (simp add: b halves_ok_def)
  have n: "uint64_of b = 18446744073709551616 + v" by (simp add: b uint64_of_def)
  have l: "length (varint_bytes (18446744073709551616 + v)) = 10"
    using assms(1) True by (rule negative_int32_varint_length)
  have 1: "int32 w v = push w Fn_writeVarint64 10 (VLong b)" for w
    using True by (simp add: int32_def b_def)
  have 2: "call_fn Fn_writeVarint64 buf pos (VLong b) = fst (writeVarint64_run buf pos b)"
    by (simp add: writeVarint64_def)
  have 3: "snd (writeVarint64_run buf pos b) = pos + 10"
    using run_count [OF ok, of buf pos] by (simp add: n l)
  have 5: "0 \<le> l \<and> l < 4294967296 \<longrightarrow>
      snd (writeVarint64_run buf pos \<lparr> lo = l, hi = 4294967295 \<rparr>) = pos + 10"
  proof
    assume r: "0 \<le> l \<and> l < 4294967296"
    define c where "c = \<lparr> lo = l, hi = 4294967295 \<rparr>"
    have okc: "halves_ok c" using r by (simp add: c_def halves_ok_def)
    have "uint64_of c = 18446744069414584320 + l" by (simp add: c_def uint64_of_def)
    moreover have "length (varint_bytes (18446744069414584320 + l)) = 10"
      using length_varint_bytes_eq [of 9 "18446744069414584320 + l"] r by simp
    ultimately show "snd (writeVarint64_run buf pos \<lparr> lo = l, hi = 4294967295 \<rparr>) = pos + 10"
      using run_count [OF okc, of buf pos] by (simp add: c_def)
  qed
  have "fst (writeVarint64_run (replicate 10 0) 0 b)
      = take 0 (replicate 10 0) @ varint_bytes (uint64_of b)
        @ drop (0 + length (varint_bytes (uint64_of b))) (replicate 10 0)"
    by (rule run_bytes [OF ok]) (simp add: n l)
  then have "fst (writeVarint64_run (replicate 10 0) 0 b) = varint_bytes (18446744073709551616 + v)"
    by (simp add: n l)
  then have 4: "map_option fst (finish (int32 new_Writer v)) = Some (varint_bytes (18446744073709551616 + v))"
    unfolding 1 finish_push_one by (simp add: writeVarint64_def)
  show ?thesis using True 1 [of w] 2 3 4 5 l b unfolding b_def by simp
qed

theorem int32_negative_ten_bytes_witness:
  "- 2147483648 \<le> (- 1 :: int) \<and> (- 1 :: int) < 2147483648
   \<and> int32 new_Writer (- 1) = push new_Writer Fn_writeVarint64 10 (VLong \<lparr> lo = 4294967295, hi = 4294967295 \<rparr>)
   \<and> snd (writeVarint64_run [] 0 \<lparr> lo = 4294967295, hi = 4294967295 \<rparr>) = 10
   \<and> map_option fst (finish (int32 new_Writer (- 1)))
       = Some [255, 255, 255, 255, 255, 255, 255, 255, 255, 1]"
proof -
  have a: "- 2147483648 \<le> (- 1 :: int)" and b: "(- 1 :: int) < 2147483648" by simp_all
  note t = int32_negative_ten_bytes [OF a b, of new_Writer "[]" 0 0]
  have neg: "(- 1 :: int) < 0" by simp
  from t neg have f: "LongBits_fromNumber (- 1) = \<lparr> lo = - 1 + 4294967296, hi = 4294967295 \<rparr>"
    by blast
  from t neg have 1: "int32 new_Writer (- 1) = push new_Writer Fn_writeVarint64 10 (VLong (LongBits_fromNumber (- 1)))"
    by blast
  from t neg have 2: "snd (writeVarint64_run [] 0 (LongBits_fromNumber (- 1))) = 0 + 10" by blast
  have 3: "map_option fst (finish (int32 new_Writer (- 1)))
       = Some [255, 255, 255, 255, 255, 255, 255, 255, 255, 1]" by code_simp
  show ?thesis using a b 1 2 3 unfolding f by simp
qed

section \<open>Fixed 64-bit values\<close>

lemma store_shape:
  assumes "q = pos + length xs" "q < length buf" "q' = q + 1"
  shows "store (take pos buf @ xs @ drop q buf) q v
     = take pos buf @ (xs @ [v mod 256]) @ drop q' buf"
proof -
  have d: "drop q buf = buf ! q # drop q' buf"
    using assms by (simp add: Cons_nth_drop_Suc)
  have l: "length (take pos buf @ xs) = q" using assms by simp
  have "store ((take pos buf @ xs) @ buf ! q # drop q' buf) (length (take pos buf @ xs)) v
      = (take pos buf @ xs) @ (v mod 256) # drop q' buf"
    unfolding store_def by (rule list_update_length)
  then show ?thesis unfolding l by (simp add: d)
qed

lemma writeFixed32_bytes:
  assumes "pos + 4 \<le> length buf"
  shows "writeFixed32 buf pos x = take pos buf @ le32 (ToUint32 x) @ drop (pos + 4) buf"
proof -
  define u where "u = ToUint32 x"
  define v0 where "v0 = js_and x 255"
  define v1 where "v1 = js_and (js_shr x 8) 255"
  define v2 where "v2 = js_and (js_shr x 16) 255"
  define v3 where "v3 = js_shr x 24"
  have b0: "v0 mod 256 = u mod 256"
    by (simp add: v0_def js_and_255 u_def ToUint32_def mod_mod_cancel)
  have b1: "v1 mod 256 = u div 256 mod 256"
    by (simp add: v1_def js_and_255 js_shr_def u_def)
  have b2: "v2 mod 256 = u div 65536 mod 256"
    by (simp add: v2_def js_and_255 js_shr_def u_def)
  have b3: "v3 mod 256 = u div 16777216 mod 256"
    by (simp add: v3_def js_shr_def u_def)
  have "store (take pos buf @ [] @ drop pos buf) pos v0
      = take pos buf @ ([] @ [v0 mod 256]) @ drop (pos + 1) buf"
    by (rule store_shape) (use assms in simp_all)
  then have s0: "store buf pos v0 = take pos buf @ [u mod 256] @ drop (pos + 1) buf"
    by (simp add: b0)
  have "store (take pos buf @ [u mod 256] @ drop (pos + 1) buf) (pos + 1) v1
      = take pos buf @ ([u mod 256] @ [v1 mod 256]) @ drop (pos + 2) buf"
    by (rule store_shape) (use assms in simp_all)
  then have s1: "store (store buf pos v0) (pos + 1) v1
      = take pos buf @ [u mod 256, u div 256 mod 256] @ drop (pos + 2) buf"
    unfolding s0 by (simp add: b1)
  have "store (take pos buf @ [u mod 256, u div 256 mod 256] @ drop (pos + 2) buf) (pos + 2) v2
      = take pos buf @ ([u mod 256, u div 256 mod 256] @ [v2 mod 256]) @ drop (pos + 3) buf"
    by (rule store_shape) (use assms in simp_all)
  then have s2: "store (store (store buf pos v0) (pos + 1) v1) (pos + 2) v2
      = take pos buf @ [u mod 256, u div 256 mod 256, u div 65536 mod 256] @ drop (pos + 3) buf"
    unfolding s1 by (simp add: b2)
  have "store (take pos buf @ [u mod 256, u div 256 mod 256, u div 65536 mod 256] @ drop (pos + 3) buf)
        (pos + 3) v3
      = take pos buf @ ([u mod 256, u div 256 mod 256, u div 65536 mod 256] @ [v3 mod 256])
        @ drop (pos + 4) buf"
    by (rule store_shape) (use assms in simp_all)
  then have s3: "store (store (store (store buf pos v0) (pos + 1) v1) (pos + 2) v2) (pos + 3) v3
      = take pos buf @ [u mod 256, u div 256 mod 256, u div 65536 mod 256, u div 16777216 mod 256]
        @ drop (pos + 4) buf"
    unfolding s2 by (simp add: b3)
  show ?thesis
    unfolding writeFixed32_def Let_def v0_def [symmetric] v1_def [symmetric] v2_def [symmetric]
      v3_def [symmetric] s3 le32_def u_def ..
qed

lemma length_le32 [simp]: "length (le32 x) = 4"
  by (simp add: le32_def)

lemma finish_push_two:
  "map_option fst (finish (push (push new_Writer f m x) g n y))
     = Some (call_fn g (call_fn f (replicate (m + n) 0) 0 x) m y)"
  by (simp add: finish_def reset_def push_def new_Writer_def new_Op_def Let_def
        finish_internal_def finish_internal_loop.simps new_ArrayImpl_def)

lemma finish_two_fixed32:
  "map_option fst (finish (push (push new_Writer Fn_writeFixed32 4 (VNum x)) Fn_writeFixed32 4 (VNum y)))
     = Some (le32 (ToUint32 x) @ le32 (ToUint32 y))"
proof -
  have 1: "writeFixed32 (replicate 8 0) 0 x = le32 (ToUint32 x) @ replicate 4 0"
    using writeFixed32_bytes [of 0 "replicate 8 0" x] by simp
  have 2: "writeFixed32 (le32 (ToUint32 x) @ replicate 4 0) 4 y = le32 (ToUint32 x) @ le32 (ToUint32 y)"
    using writeFixed32_bytes [of 4 "le32 (ToUint32 x) @ replicate 4 0" y] by simp
  show ?thesis unfolding finish_push_two by (simp add: 1 2)
qed

text \<open>
  C1: \<open>fixed64\<close> and \<open>sfixed64\<close> enqueue the two halves of the LongBits (for \<open>sfixed64\<close>
  after the zig-zag transform), each as a little-endian 32-bit group, 8 bytes in all. The
  claim is: \<open>lo\<close> first, then \<open>hi\<close>. The code pushes \<open>bits.hi\<close> first and \<open>bits.lo\<close> second,
  for every value: \<open>fixed64(1)\<close> gives \<open>00 00 00 00 01 00 00 00\<close>, and so does
  \<open>sfixed64(-1)\<close>, whose zig-zag value is 1.
\<close>
theorem fixed64_hi_first:
  "map_option fst (finish (fixed64 new_Writer v))
     = Some (le32 (hi (LongBits_from v)) @ le32 (lo (LongBits_from v)))
   \<and> map_option fst (finish (sfixed64 new_Writer v))
     = Some (le32 (hi (zzEncode (LongBits_from v))) @ le32 (lo (zzEncode (LongBits_from v))))
   \<and> map_option fst (finish (fixed64 new_Writer 1)) = Some [0, 0, 0, 0, 1, 0, 0, 0]
   \<and> map_option fst (finish (sfixed64 new_Writer (- 1))) = Some [0, 0, 0, 0, 1, 0, 0, 0]"
proof -
  have r: "ToUint32 (hi (LongBits_from v)) = hi (LongBits_from v)"
    "ToUint32 (lo (LongBits_from v)) = lo (LongBits_from v)"
    by (simp_all add: LongBits_from_def LongBits_fromNumber_def ToUint32_def)
  have z: "ToUint32 (hi (zzEncode (LongBits_from v))) = hi (zzEncode (LongBits_from v))"
    "ToUint32 (lo (zzEncode (LongBits_from v))) = lo (zzEncode (LongBits_from v))"
    by (simp_all add: zzEncode_def Let_def ToUint32_def)
  have 1: "map_option fst (finish (fixed64 new_Writer v))
     = Some (le32 (hi (LongBits_from v)) @ le32 (lo (LongBits_from v)))"
    unfolding fixed64_def Let_def finish_two_fixed32 r ..
  have 2: "map_option fst (finish (sfixed64 new_Writer v))
     = Some (le32 (hi (zzEncode (LongBits_from v))) @ le32 (lo (zzEncode (LongBits_from v))))"
    unfolding sfixed64_def Let_def finish_two_fixed32 z ..
  have 3: "map_option fst (finish (fixed64 new_Writer 1)) = Some [0, 0, 0, 0, 1, 0, 0, 0]"
    by code_simp
  have 4: "map_option fst (finish (sfixed64 new_Writer (- 1))) = Some [0, 0, 0, 0, 1, 0, 0, 0]"
    by code_simp
  show ?thesis using 1 2 3 4 by blast
qed

end
